theory Spec2Isabelle
  imports Complex_Main "HOL-Library.Signed_Division" "HOL-Library.Multiset"
begin

unbundle bit_operations_syntax

section \<open>Longstaff-Schwartz American option pricing: the device kernels\<close>

text \<open>
  The pricing engine is a sequence of device kernels driven by \<open>do_run\<close>. The embedding
  follows the kernels one by one.

  \<^item> A \<open>double\<close> is a \<^typ>\<open>real\<close>: arithmetic is exact, and there is no NaN, no
    infinity and no rounding. Where the source calls \<open>sqrt\<close> the argument is meant to be
    non-negative (a negative one is NaN in the source).
  \<^item> An \<open>int\<close> is an \<^typ>\<open>int\<close>; products such as \<open>timestep * num_paths\<close> are
    taken to stay below \<open>2^31\<close>.
  \<^item> A device buffer is a store \<^typ>\<open>int \<Rightarrow> real\<close> from element index to value, and a
    device pointer into it is the store together with an element offset, so that
    \<open>d_cashflows = d_paths + (num_timesteps-1)*num_paths\<close> aliases the last row of
    \<open>d_paths\<close> in the model as it does in the source. Buffers are taken to be large
    enough for every index the kernels compute.
  \<^item> A kernel launch is the sequence of its threads in increasing global thread index;
    \<open>__syncthreads()\<close> separates the phases of a block, and an \<open>atomicAdd\<close> onto a
    shared accumulator is the sum over the threads of the block.
\<close>

type_synonym dmem = "int \<Rightarrow> real"

subsection \<open>Payoff\<close>

datatype payoff = PayoffCall real | PayoffPut real

fun payoff_value :: "payoff \<Rightarrow> real \<Rightarrow> real" where
  "payoff_value (PayoffCall m_K) S = max (S - m_K) 0"
| "payoff_value (PayoffPut m_K) S = max (m_K - S) 0"

fun is_in_the_money :: "payoff \<Rightarrow> real \<Rightarrow> int" where
  "is_in_the_money (PayoffCall m_K) S = (if S > m_K then 1 else 0)"
| "is_in_the_money (PayoffPut m_K) S = (if S < m_K then 1 else 0)"

subsection \<open>Loops with a stride\<close>

text \<open>
  \<open>for (i = start; i < n; i += stride) body\<close>. Every stride of the source is a block
  size or a grid size, hence positive; the loop of the model stops on any other.
\<close>

function for_stride :: "int \<Rightarrow> int \<Rightarrow> int \<Rightarrow> (int \<Rightarrow> 's \<Rightarrow> 's) \<Rightarrow> 's \<Rightarrow> 's" where
  "for_stride i n stride body s =
     (if i < n \<and> 0 < stride then for_stride (i + stride) n stride body (body i s) else s)"
  by pat_completeness auto
termination
  by (relation "measure (\<lambda>(i, n, stride, body, s). nat (n - i))") auto

declare for_stride.simps [simp del]

text \<open>
  The threads \<open>0 .. n-1\<close> of a launch (or of a block, or the blocks of a grid), one after
  the other.
\<close>

definition for_threads :: "int \<Rightarrow> (int \<Rightarrow> 's \<Rightarrow> 's) \<Rightarrow> 's \<Rightarrow> 's" where
  "for_threads n thread s = fold thread [0..n - 1] s"

abbreviation for_blocks :: "int \<Rightarrow> (int \<Rightarrow> 's \<Rightarrow> 's) \<Rightarrow> 's \<Rightarrow> 's" where
  "for_blocks \<equiv> for_threads"

subsection \<open>Path Generator\<close>

function generate_paths_loop ::
  "int \<Rightarrow> int \<Rightarrow> real \<Rightarrow> real \<Rightarrow> dmem \<Rightarrow> int \<Rightarrow> real \<times> int \<times> dmem \<Rightarrow> real \<times> int \<times> dmem" where
  "generate_paths_loop num_timesteps num_paths r_min_half_sigma_sq_dt sigma_sqrt_dt samples
       timestep (S, offset, paths) =
     (if timestep < num_timesteps - 1 then
        (let S' = S * exp (r_min_half_sigma_sq_dt + sigma_sqrt_dt * samples offset)
         in generate_paths_loop num_timesteps num_paths r_min_half_sigma_sq_dt sigma_sqrt_dt
              samples (timestep + 1) (S', offset + num_paths, paths(offset := S')))
      else (S, offset, paths))"
  by pat_completeness auto
termination
  by (relation "measure (\<lambda>(nts, np, c1, c2, smp, ts, st). nat (nts - 1 - ts))") auto

declare generate_paths_loop.simps [simp del]

text \<open>One thread of \<open>generate_paths_kernel\<close>; \<open>path\<close> is its global index.\<close>

definition generate_paths_thread ::
  "int \<Rightarrow> int \<Rightarrow> payoff \<Rightarrow> real \<Rightarrow> real \<Rightarrow> real \<Rightarrow> real \<Rightarrow> dmem \<Rightarrow> int \<Rightarrow> dmem \<Rightarrow> dmem" where
  "generate_paths_thread num_timesteps num_paths payoff dt S0 r sigma samples path paths =
     (if path \<ge> num_paths then paths
      else
        let r_min_half_sigma_sq_dt = (r - 0.5 * sigma * sigma) * dt;
            sigma_sqrt_dt = sigma * sqrt dt;
            (S, offset, paths') =
               generate_paths_loop num_timesteps num_paths r_min_half_sigma_sq_dt sigma_sqrt_dt
                 samples 0 (S0, path, paths);
            S' = S * exp (r_min_half_sigma_sq_dt + sigma_sqrt_dt * samples offset)
        in paths'(offset := payoff_value payoff S'))"

definition generate_paths_kernel ::
  "int \<Rightarrow> int \<Rightarrow> int \<Rightarrow> int \<Rightarrow> payoff \<Rightarrow> real \<Rightarrow> real \<Rightarrow> real \<Rightarrow> real \<Rightarrow> dmem \<Rightarrow> dmem \<Rightarrow> dmem" where
  "generate_paths_kernel gridDim NUM_THREADS_PER_BLOCK num_timesteps num_paths payoff dt S0 r
       sigma samples paths =
     for_threads (gridDim * NUM_THREADS_PER_BLOCK)
       (generate_paths_thread num_timesteps num_paths payoff dt S0 r sigma samples) paths"

text \<open>
  The price recurrence as the specification words it: \<open>S\<^sub>0 = S0\<close> and
  \<open>S\<^sub>k\<^sub>+\<^sub>1 = S\<^sub>k \<cdot> exp ((r - \<sigma>\<^sup>2/2) dt + \<sigma> \<surd>dt Z\<^sub>k\<^sub>,\<^sub>p)\<close>, with the sample \<open>Z\<^sub>k\<^sub>,\<^sub>p\<close> at
  index \<open>k \<cdot> num_paths + p\<close> of the sample matrix.
\<close>

fun gbm_price :: "real \<Rightarrow> real \<Rightarrow> real \<Rightarrow> real \<Rightarrow> dmem \<Rightarrow> int \<Rightarrow> int \<Rightarrow> nat \<Rightarrow> real" where
  "gbm_price S0 r sigma dt samples num_paths p 0 = S0"
| "gbm_price S0 r sigma dt samples num_paths p (Suc k) =
     gbm_price S0 r sigma dt samples num_paths p k
       * exp ((r - sigma\<^sup>2 / 2) * dt + sigma * sqrt dt * samples (int k * num_paths + p))"

subsection \<open>Regression Builder: the QR factor\<close>

text \<open>
  \<open>assemble_R\<close> reads the three seed prices from \<open>smem_svds[0..2]\<close> and overwrites
  \<open>smem_svds[0..5]\<close> with the upper triangle of \<open>R\<close>. Variables that the source
  assigns twice are bound twice here, under the same name. The \<open>double4\<close> of the four
  power sums is a tuple.
\<close>

definition assemble_R :: "int \<Rightarrow> real \<times> real \<times> real \<times> real \<Rightarrow> dmem \<Rightarrow> dmem" where
  "assemble_R m sums_xyzw smem_svds =
    (case sums_xyzw of (sums_x, sums_y, sums_z, sums_w) \<Rightarrow>
     let x0 = smem_svds 0;
         x1 = smem_svds 1;
         x2 = smem_svds 2;
         x0_sq = x0 * x0;
         sum1 = sums_x - x0;
         sum2 = sums_y - x0_sq;
         sum3 = sums_z - x0_sq * x0;
         sum4 = sums_w - x0_sq * x0_sq;
         m_as_dbl = real_of_int m;
         sigma = m_as_dbl - 1;
         mu = sqrt m_as_dbl;
         v0 = - sigma / (1 + mu);
         v0_sq = v0 * v0;
         beta = 2 * v0_sq / (sigma + v0_sq);
         inv_v0 = 1 / v0;
         one_min_beta = 1 - beta;
         beta_div_v0 = beta * inv_v0;
         smem_svds = smem_svds(0 := mu);
         smem_svds = smem_svds(1 := one_min_beta * x0 - beta_div_v0 * sum1);
         smem_svds = smem_svds(2 := one_min_beta * x0_sq - beta_div_v0 * sum2);
         beta_div_v0_sq = beta_div_v0 * inv_v0;
         c1 = beta_div_v0_sq * sum1 + beta_div_v0 * x0;
         c2 = beta_div_v0_sq * sum2 + beta_div_v0 * x0_sq;
         x1_sq = x1 * x1;
         sum1 = sum1 - x1;
         sum2 = sum2 - x1_sq;
         sum3 = sum3 - x1_sq * x1;
         sum4 = sum4 - x1_sq * x1_sq;
         x0 = x1 - c1;
         x0_sq = x0 * x0;
         sigma = sum2 - 2 * c1 * sum1 + (m_as_dbl - 2) * c1 * c1;
         (mu, v0, v0_sq, beta) =
            (if \<bar>sigma\<bar> < 1 / 10 ^ 16 then (mu, v0, v0_sq, 0)
             else
               let mu = sqrt (x0_sq + sigma);
                   v0 = (if x0 \<le> 0 then x0 - mu else - sigma / (x0 + mu));
                   v0_sq = v0 * v0;
                   beta = 2 * v0_sq / (sigma + v0_sq)
               in (mu, v0, v0_sq, beta));
         inv_v0 = 1 / v0;
         beta_div_v0 = beta * inv_v0;
         c3 = (sum3 - c1 * sum2 - c2 * sum1 + (m_as_dbl - 2) * c1 * c2) * beta_div_v0;
         c4 = (x1_sq - c2) * beta_div_v0 + c3 * inv_v0;
         c5 = c1 * c4 - c2;
         one_min_beta = 1 - beta;
         smem_svds = smem_svds(3 := one_min_beta * x0 - beta_div_v0 * sigma);
         smem_svds = smem_svds(4 := one_min_beta * (x1_sq - c2) - c3);
         x2_sq = x2 * x2;
         sum1 = sum1 - x2;
         sum2 = sum2 - x2_sq;
         sum3 = sum3 - x2_sq * x2;
         sum4 = sum4 - x2_sq * x2_sq;
         x0 = x2_sq - c4 * x2 + c5;
         sigma = sum4 - 2 * c4 * sum3 + (c4 * c4 + 2 * c5) * sum2 - 2 * c4 * c5 * sum1
                   + (m_as_dbl - 3) * c5 * c5;
         (mu, v0, v0_sq, beta) =
            (if \<bar>sigma\<bar> < 1 / 10 ^ 12 then (mu, v0, v0_sq, 0)
             else
               let mu = sqrt (x0 * x0 + sigma);
                   v0 = (if x0 \<le> 0 then x0 - mu else - sigma / (x0 + mu));
                   v0_sq = v0 * v0;
                   beta = 2 * v0_sq / (sigma + v0_sq)
               in (mu, v0, v0_sq, beta))
     in smem_svds(5 := (1 - beta) * x0 - (beta / v0) * sigma))"

subsection \<open>Regression Builder: Jacobi eigen-solve of \<open>R\<^sup>T R\<close>\<close>

definition off_diag_norm :: "real \<Rightarrow> real \<Rightarrow> real \<Rightarrow> real" where
  "off_diag_norm A01 A02 A12 = sqrt (2 * (A01 * A01 + A02 * A02 + A12 * A12))"

text \<open>The rotation \<open>(c, s)\<close> that annihilates \<open>A\<^sub>p\<^sub>q\<close>; the source computes it three times per sweep.\<close>

definition jacobi_rotation :: "real \<Rightarrow> real \<Rightarrow> real \<Rightarrow> real \<times> real" where
  "jacobi_rotation Apq App Aqq =
     (if Apq \<noteq> 0 then
        let tau = (Aqq - App) / (2 * Apq);
            sgn = (if tau < 0 then - 1 else 1);
            t = sgn / (sgn * tau + sqrt (1 + tau * tau));
            c = 1 / sqrt (1 + t * t);
            s = t * c
        in (c, s)
      else (1, 0))"

text \<open>The state of the iteration: the symmetric matrix \<open>A\<close> and the accumulated rotations \<open>V\<close>.\<close>

datatype jacobi = Jacobi real real real real real real  real real real  real real real  real real real

text \<open>
  One pass of the loop body is three rotations, for \<open>(p,q) = (0,1)\<close>, \<open>(0,2)\<close> and \<open>(1,2)\<close>;
  each updates \<open>A = J\<^sup>T A J\<close> and \<open>V = V J\<close>.
\<close>

definition jacobi_rotate_01 :: "jacobi \<Rightarrow> jacobi" where
  "jacobi_rotate_01 J =
    (case J of Jacobi A00 A01 A02 A11 A12 A22 V00 V01 V02 V10 V11 V12 V20 V21 V22 \<Rightarrow>
     let (c, s) = jacobi_rotation A01 A00 A11;
         B00 = c * A00 - s * A01;
         B01 = s * A00 + c * A01;
         B10 = c * A01 - s * A11;
         B11 = s * A01 + c * A11;
         B02 = A02;
         A00 = c * B00 - s * B10;
         A01 = c * B01 - s * B11;
         A11 = s * B01 + c * B11;
         A02 = c * B02 - s * A12;
         A12 = s * B02 + c * A12;
         B00 = c * V00 - s * V01;
         V01 = s * V00 + c * V01;
         V00 = B00;
         B10 = c * V10 - s * V11;
         V11 = s * V10 + c * V11;
         V10 = B10;
         B20 = c * V20 - s * V21;
         V21 = s * V20 + c * V21;
         V20 = B20
     in Jacobi A00 A01 A02 A11 A12 A22 V00 V01 V02 V10 V11 V12 V20 V21 V22)"

definition jacobi_rotate_02 :: "jacobi \<Rightarrow> jacobi" where
  "jacobi_rotate_02 J =
    (case J of Jacobi A00 A01 A02 A11 A12 A22 V00 V01 V02 V10 V11 V12 V20 V21 V22 \<Rightarrow>
     let (c, s) = jacobi_rotation A02 A00 A22;
         B00 = c * A00 - s * A02;
         B01 = c * A01 - s * A12;
         B02 = s * A00 + c * A02;
         B20 = c * A02 - s * A22;
         B22 = s * A02 + c * A22;
         A00 = c * B00 - s * B20;
         A12 = s * A01 + c * A12;
         A02 = c * B02 - s * B22;
         A22 = s * B02 + c * B22;
         A01 = B01;
         B00 = c * V00 - s * V02;
         V02 = s * V00 + c * V02;
         V00 = B00;
         B10 = c * V10 - s * V12;
         V12 = s * V10 + c * V12;
         V10 = B10;
         B20 = c * V20 - s * V22;
         V22 = s * V20 + c * V22;
         V20 = B20
     in Jacobi A00 A01 A02 A11 A12 A22 V00 V01 V02 V10 V11 V12 V20 V21 V22)"

definition jacobi_rotate_12 :: "jacobi \<Rightarrow> jacobi" where
  "jacobi_rotate_12 J =
    (case J of Jacobi A00 A01 A02 A11 A12 A22 V00 V01 V02 V10 V11 V12 V20 V21 V22 \<Rightarrow>
     let (c, s) = jacobi_rotation A12 A11 A22;
         B02 = s * A01 + c * A02;
         B11 = c * A11 - s * A12;
         B12 = s * A11 + c * A12;
         B21 = c * A12 - s * A22;
         B22 = s * A12 + c * A22;
         A01 = c * A01 - s * A02;
         A02 = B02;
         A11 = c * B11 - s * B21;
         A12 = c * B12 - s * B22;
         A22 = s * B12 + c * B22;
         B01 = c * V01 - s * V02;
         V02 = s * V01 + c * V02;
         V01 = B01;
         B11 = c * V11 - s * V12;
         V12 = s * V11 + c * V12;
         V11 = B11;
         B21 = c * V21 - s * V22;
         V22 = s * V21 + c * V22;
         V21 = B21
     in Jacobi A00 A01 A02 A11 A12 A22 V00 V01 V02 V10 V11 V12 V20 V21 V22)"

definition jacobi_sweep :: "jacobi \<Rightarrow> jacobi" where
  "jacobi_sweep J = jacobi_rotate_12 (jacobi_rotate_02 (jacobi_rotate_01 J))"

definition jacobi_off_diag :: "jacobi \<Rightarrow> real" where
  "jacobi_off_diag J =
     (case J of Jacobi A00 A01 A02 A11 A12 A22 V00 V01 V02 V10 V11 V12 V20 V21 V22 \<Rightarrow>
        off_diag_norm A01 A02 A12)"

text \<open>\<open>max_iters = 16\<close>, \<open>tolerance = 1.0e-12\<close>.\<close>

function jacobi_loop :: "int \<Rightarrow> jacobi \<Rightarrow> jacobi" where
  "jacobi_loop iter J =
     (if jacobi_off_diag J \<ge> 1 / 10 ^ 12 \<and> iter < 16 then jacobi_loop (iter + 1) (jacobi_sweep J)
      else J)"
  by pat_completeness auto
termination
  by (relation "measure (\<lambda>(iter, J). nat (16 - iter))") auto

declare jacobi_loop.simps [simp del]

text \<open>
  The three conditional swaps that order the eigenvalues, each with its columns of \<open>V\<close>.
\<close>

definition sort_eigenpairs :: "jacobi \<Rightarrow> jacobi" where
  "sort_eigenpairs J =
    (case J of Jacobi A00 A01 A02 A11 A12 A22 V00 V01 V02 V10 V11 V12 V20 V21 V22 \<Rightarrow>
     let (A00, A11, V00, V01, V10, V11, V20, V21) =
           (if A00 < A11 then (A11, A00, V01, V00, V11, V10, V21, V20)
            else (A00, A11, V00, V01, V10, V11, V20, V21));
         (A00, A22, V00, V02, V10, V12, V20, V22) =
           (if A00 < A22 then (A22, A00, V02, V00, V12, V10, V22, V20)
            else (A00, A22, V00, V02, V10, V12, V20, V22));
         (A11, A22, V01, V02, V11, V12, V21, V22) =
           (if A11 < A22 then (A22, A11, V02, V01, V12, V11, V22, V21)
            else (A11, A22, V01, V02, V11, V12, V21, V22))
     in Jacobi A00 A01 A02 A11 A12 A22 V00 V01 V02 V10 V11 V12 V20 V21 V22)"

text \<open>
  A reciprocal \<open>1.0 / x\<close> (or \<open>__drcp_rn(x)\<close>) as a partial operation: a zero divisor has
  no result. The guarded reciprocals of the source follow, once over the partial
  operation and once as the values the kernels compute with.
\<close>

definition reciprocal :: "real \<Rightarrow> real option" where
  "reciprocal x = (if x = 0 then None else Some (1 / x))"

definition inv_S_checked :: "real \<Rightarrow> real option" where
  "inv_S_checked A = (if \<bar>A\<bar> < 1 / 10 ^ 12 then Some 0 else reciprocal A)"

definition inv_S :: "real \<Rightarrow> real" where
  "inv_S A = (if \<bar>A\<bar> < 1 / 10 ^ 12 then 0 else 1 / A)"

definition inv_R_checked :: "real \<Rightarrow> real option" where
  "inv_R_checked R = (if R \<noteq> 0 then reciprocal R else Some 0)"

definition inv_R :: "real \<Rightarrow> real" where
  "inv_R R = (if R \<noteq> 0 then 1 / R else 0)"

text \<open>\<open>V \<cdot> S\<^sup>-\<^sup>1 \<cdot> V\<^sup>T \<cdot> R\<^sup>T\<close>, upper triangle only (\<open>WITH_FULL_W_MATRIX\<close> is not defined).\<close>

definition store_W :: "real \<times> real \<times> real \<times> real \<times> real \<times> real \<Rightarrow> jacobi \<Rightarrow> dmem \<Rightarrow> dmem" where
  "store_W R J smem_svds =
    (case (R, J) of
       ((R00, R01, R02, R11, R12, R22),
        Jacobi A00 A01 A02 A11 A12 A22 V00 V01 V02 V10 V11 V12 V20 V21 V22) \<Rightarrow>
     let inv_S0 = inv_S A00;
         inv_S1 = inv_S A11;
         inv_S2 = inv_S A22;
         U00 = V00 * inv_S0;
         U01 = V01 * inv_S1;
         U02 = V02 * inv_S2;
         U10 = V10 * inv_S0;
         U11 = V11 * inv_S1;
         U12 = V12 * inv_S2;
         U20 = V20 * inv_S0;
         U21 = V21 * inv_S1;
         U22 = V22 * inv_S2;
         B00 = U00 * V00 + U01 * V01 + U02 * V02;
         B01 = U00 * V10 + U01 * V11 + U02 * V12;
         B02 = U00 * V20 + U01 * V21 + U02 * V22;
         B11 = U10 * V10 + U11 * V11 + U12 * V12;
         B12 = U10 * V20 + U11 * V21 + U12 * V22;
         B22 = U20 * V20 + U21 * V21 + U22 * V22;
         smem_svds = smem_svds(6 := B00 * R00 + B01 * R01 + B02 * R02);
         smem_svds = smem_svds(7 := B01 * R11 + B02 * R12);
         smem_svds = smem_svds(8 := B02 * R22);
         smem_svds = smem_svds(9 := B11 * R11 + B12 * R12);
         smem_svds = smem_svds(10 := B12 * R22)
     in smem_svds(11 := B22 * R22))"

definition svd_3x3 :: "int \<Rightarrow> real \<times> real \<times> real \<times> real \<Rightarrow> dmem \<Rightarrow> dmem" where
  "svd_3x3 m sums_xyzw smem_svds =
    (let smem_svds = assemble_R m sums_xyzw smem_svds;
         R00 = smem_svds 0;
         R01 = smem_svds 1;
         R02 = smem_svds 2;
         R11 = smem_svds 3;
         R12 = smem_svds 4;
         R22 = smem_svds 5;
         A00 = R00 * R00;
         A01 = R00 * R01;
         A02 = R00 * R02;
         A11 = R01 * R01 + R11 * R11;
         A12 = R01 * R02 + R11 * R12;
         A22 = R02 * R02 + R12 * R12 + R22 * R22;
         J = jacobi_loop 0 (Jacobi A00 A01 A02 A11 A12 A22  1 0 0  0 1 0  0 0 1);
         J = sort_eigenpairs J
     in store_W (R00, R01, R02, R11, R12, R22) J smem_svds)"

text \<open>
  The end of \<open>svd_3x3\<close> once more, now with every reciprocal of an eigenvalue as the
  partial operation: the result is \<open>None\<close> as soon as one of them divides by zero. The
  other divisions of \<open>svd_3x3\<close>, in \<open>assemble_R\<close> and in the Jacobi rotations, have other
  divisors and stay as they are.
\<close>

definition store_W_checked ::
  "real \<times> real \<times> real \<times> real \<times> real \<times> real \<Rightarrow> jacobi \<Rightarrow> dmem \<Rightarrow> dmem option" where
  "store_W_checked R J smem_svds =
    (case (R, J) of
       ((R00, R01, R02, R11, R12, R22),
        Jacobi A00 A01 A02 A11 A12 A22 V00 V01 V02 V10 V11 V12 V20 V21 V22) \<Rightarrow>
     (case inv_S_checked A00 of None \<Rightarrow> None | Some inv_S0 \<Rightarrow>
     (case inv_S_checked A11 of None \<Rightarrow> None | Some inv_S1 \<Rightarrow>
     (case inv_S_checked A22 of None \<Rightarrow> None | Some inv_S2 \<Rightarrow>
     Some
      (let U00 = V00 * inv_S0;
           U01 = V01 * inv_S1;
           U02 = V02 * inv_S2;
           U10 = V10 * inv_S0;
           U11 = V11 * inv_S1;
           U12 = V12 * inv_S2;
           U20 = V20 * inv_S0;
           U21 = V21 * inv_S1;
           U22 = V22 * inv_S2;
           B00 = U00 * V00 + U01 * V01 + U02 * V02;
           B01 = U00 * V10 + U01 * V11 + U02 * V12;
           B02 = U00 * V20 + U01 * V21 + U02 * V22;
           B11 = U10 * V10 + U11 * V11 + U12 * V12;
           B12 = U10 * V20 + U11 * V21 + U12 * V22;
           B22 = U20 * V20 + U21 * V21 + U22 * V22;
           smem_svds = smem_svds(6 := B00 * R00 + B01 * R01 + B02 * R02);
           smem_svds = smem_svds(7 := B01 * R11 + B02 * R12);
           smem_svds = smem_svds(8 := B02 * R22);
           smem_svds = smem_svds(9 := B11 * R11 + B12 * R12);
           smem_svds = smem_svds(10 := B12 * R22)
       in smem_svds(11 := B22 * R22))))))"

definition svd_3x3_checked ::
  "int \<Rightarrow> real \<times> real \<times> real \<times> real \<Rightarrow> dmem \<Rightarrow> dmem option" where
  "svd_3x3_checked m sums_xyzw smem_svds =
    (let smem_svds = assemble_R m sums_xyzw smem_svds;
         R00 = smem_svds 0;
         R01 = smem_svds 1;
         R02 = smem_svds 2;
         R11 = smem_svds 3;
         R12 = smem_svds 4;
         R22 = smem_svds 5;
         A00 = R00 * R00;
         A01 = R00 * R01;
         A02 = R00 * R02;
         A11 = R01 * R01 + R11 * R11;
         A12 = R01 * R02 + R11 * R12;
         A22 = R02 * R02 + R12 * R12 + R22 * R22;
         J = jacobi_loop 0 (Jacobi A00 A01 A02 A11 A12 A22  1 0 0  0 1 0  0 0 1);
         J = sort_eigenpairs J
     in store_W_checked (R00, R01, R02, R11, R12, R22) J smem_svds)"

subsection \<open>Regression Builder: \<open>prepare_svd_kernel\<close>\<close>

text \<open>
  One block works on one timestep. The shared arrays \<open>scan_input\<close> and \<open>smem_svds\<close> are
  indexed by position, the locals \<open>found_paths\<close>, \<open>m\<close> and \<open>sums\<close> of the threads by
  \<open>threadIdx.x\<close>.
\<close>

record svd_block =
  blk_scan_input :: "int \<Rightarrow> int"
  blk_smem_svds :: dmem
  thr_found_paths :: "int \<Rightarrow> int"
  thr_m :: "int \<Rightarrow> int"
  thr_sums_x :: "int \<Rightarrow> real"
  thr_sums_y :: "int \<Rightarrow> real"
  thr_sums_z :: "int \<Rightarrow> real"
  thr_sums_w :: "int \<Rightarrow> real"

text \<open>
  The scan of thread 0: \<open>scan_output[0] = 0\<close>,
  \<open>scan_output[i] = scan_output[i-1] + scan_input[i-1]\<close>.
\<close>

fun scan_output :: "(int \<Rightarrow> int) \<Rightarrow> nat \<Rightarrow> int" where
  "scan_output scan_input 0 = 0"
| "scan_output scan_input (Suc i) = scan_output scan_input i + scan_input (int i)"

text \<open>
  One iteration of the loop over the paths, for the whole block; \<open>base\<close> is the path of
  thread 0. A thread takes part while its own path \<open>base + threadIdx.x\<close> is below
  \<open>num_paths\<close>; the entries of \<open>scan_input\<close> of the other threads keep what they held.
  \<open>atomicOr\<close> onto the shared \<open>lsum\<close> is the disjunction over the threads that take part.
\<close>

definition prepare_svd_iteration ::
  "int \<Rightarrow> int \<Rightarrow> payoff \<Rightarrow> dmem \<Rightarrow> int \<Rightarrow> int \<Rightarrow> svd_block \<Rightarrow> svd_block" where
  "prepare_svd_iteration NUM_THREADS_PER_BLOCK num_paths payoff paths offset base st =
    (let in_loop = (\<lambda>tid. 0 \<le> tid \<and> tid < NUM_THREADS_PER_BLOCK \<and> base + tid < num_paths);
         S = (\<lambda>tid. paths (offset + (base + tid)));
         in_the_money = (\<lambda>tid. is_in_the_money payoff (S tid));
         scan_input = (\<lambda>tid. if in_loop tid then in_the_money tid else blk_scan_input st tid);
         partial_sum = (\<lambda>tid. scan_output scan_input (nat tid));
         total_sum = scan_output scan_input (nat NUM_THREADS_PER_BLOCK);
         smem_svds = for_threads NUM_THREADS_PER_BLOCK
            (\<lambda>tid smem.
               if in_loop tid \<and> thr_found_paths st tid < 3 \<and> in_the_money tid \<noteq> 0
                    \<and> thr_found_paths st tid + partial_sum tid < 3
               then smem(thr_found_paths st tid + partial_sum tid := S tid) else smem)
            (blk_smem_svds st);
         found_paths = (\<lambda>tid. if in_loop tid \<and> thr_found_paths st tid < 3
                               then thr_found_paths st tid + total_sum else thr_found_paths st tid);
         lsum = for_threads NUM_THREADS_PER_BLOCK
            (\<lambda>tid lsum. if in_loop tid then lsum OR in_the_money tid else lsum) 0;
         accumulates = (\<lambda>tid. in_loop tid \<and> lsum \<noteq> 0);
         x = (\<lambda>tid. if in_the_money tid \<noteq> 0 then S tid else 0);
         x_sq = (\<lambda>tid. if in_the_money tid \<noteq> 0 then S tid * S tid else 0)
     in \<lparr> blk_scan_input = scan_input,
          blk_smem_svds = smem_svds,
          thr_found_paths = found_paths,
          thr_m = (\<lambda>tid. if accumulates tid then thr_m st tid + in_the_money tid else thr_m st tid),
          thr_sums_x = (\<lambda>tid. if accumulates tid then thr_sums_x st tid + x tid else thr_sums_x st tid),
          thr_sums_y = (\<lambda>tid. if accumulates tid then thr_sums_y st tid + x_sq tid else thr_sums_y st tid),
          thr_sums_z = (\<lambda>tid. if accumulates tid then thr_sums_z st tid + x_sq tid * x tid
                               else thr_sums_z st tid),
          thr_sums_w = (\<lambda>tid. if accumulates tid then thr_sums_w st tid + x_sq tid * x_sq tid
                               else thr_sums_w st tid) \<rparr>)"

function prepare_svd_loop ::
  "int \<Rightarrow> int \<Rightarrow> payoff \<Rightarrow> dmem \<Rightarrow> int \<Rightarrow> int \<Rightarrow> svd_block \<Rightarrow> svd_block" where
  "prepare_svd_loop NUM_THREADS_PER_BLOCK num_paths payoff paths offset base st =
     (if base < num_paths \<and> 0 < NUM_THREADS_PER_BLOCK
      then prepare_svd_loop NUM_THREADS_PER_BLOCK num_paths payoff paths offset
             (base + NUM_THREADS_PER_BLOCK)
             (prepare_svd_iteration NUM_THREADS_PER_BLOCK num_paths payoff paths offset base st)
      else st)"
  by pat_completeness auto
termination
  by (relation "measure (\<lambda>(B, np, payoff, paths, offset, base, st). nat (np - base))") auto

declare prepare_svd_loop.simps [simp del]

text \<open>
  The state of the block when the loop over the paths is left. \<open>scan_input\<close> and
  \<open>smem_svds\<close> are shared memory and start with whatever they hold (\<open>scan_input0\<close>,
  \<open>smem_svds0\<close>); the threads below \<open>R_W_MATRICES_SMEM_SLOTS = 12\<close> clear \<open>smem_svds\<close>.
\<close>

definition prepare_svd_scan ::
  "int \<Rightarrow> int \<Rightarrow> payoff \<Rightarrow> dmem \<Rightarrow> (int \<Rightarrow> int) \<Rightarrow> dmem \<Rightarrow> int \<Rightarrow> svd_block" where
  "prepare_svd_scan NUM_THREADS_PER_BLOCK num_paths payoff paths scan_input0 smem_svds0 blockIdx =
    (let timestep = blockIdx;
         offset = timestep * num_paths;
         smem_svds = for_threads NUM_THREADS_PER_BLOCK
            (\<lambda>tid smem. if tid < 12 then smem(tid := 0) else smem) smem_svds0
     in prepare_svd_loop NUM_THREADS_PER_BLOCK num_paths payoff paths offset 0
          \<lparr> blk_scan_input = scan_input0,
            blk_smem_svds = smem_svds,
            thr_found_paths = (\<lambda>tid. 0),
            thr_m = (\<lambda>tid. 0),
            thr_sums_x = (\<lambda>tid. 0),
            thr_sums_y = (\<lambda>tid. 0),
            thr_sums_z = (\<lambda>tid. 0),
            thr_sums_w = (\<lambda>tid. 0) \<rparr>)"

text \<open>
  The end of the block. \<open>not_enough_paths\<close> is a local that only thread 0 ever sets, so
  with too few paths in the money thread 0 raises the flag of the timestep while the
  other threads still take the \<open>else\<close> branch and copy their slot of \<open>smem_svds\<close>.
\<close>

definition prepare_svd_block ::
  "int \<Rightarrow> int \<Rightarrow> int \<Rightarrow> payoff \<Rightarrow> dmem \<Rightarrow> (int \<Rightarrow> int) \<Rightarrow> dmem \<Rightarrow> int
     \<Rightarrow> (int \<Rightarrow> int) \<times> dmem \<Rightarrow> (int \<Rightarrow> int) \<times> dmem" where
  "prepare_svd_block NUM_THREADS_PER_BLOCK num_paths min_in_the_money payoff paths
       scan_input0 smem_svds0 blockIdx mem =
    (let (all_out_of_the_money, svds) = mem;
         st = prepare_svd_scan NUM_THREADS_PER_BLOCK num_paths payoff paths scan_input0
                smem_svds0 blockIdx;
         lsum = (\<Sum>tid = 0..<NUM_THREADS_PER_BLOCK. thr_m st tid)
     in if lsum < min_in_the_money then
          (all_out_of_the_money(blockIdx := 1),
           for_threads NUM_THREADS_PER_BLOCK
             (\<lambda>tid svds. if tid \<noteq> 0 \<and> tid < 12
                           then svds(16 * blockIdx + tid := blk_smem_svds st tid) else svds) svds)
        else
          let lsums = (\<Sum>tid = 0..<NUM_THREADS_PER_BLOCK. thr_sums_x st tid,
                       \<Sum>tid = 0..<NUM_THREADS_PER_BLOCK. thr_sums_y st tid,
                       \<Sum>tid = 0..<NUM_THREADS_PER_BLOCK. thr_sums_z st tid,
                       \<Sum>tid = 0..<NUM_THREADS_PER_BLOCK. thr_sums_w st tid);
              smem_svds = svd_3x3 lsum lsums (blk_smem_svds st)
          in (all_out_of_the_money,
              for_threads NUM_THREADS_PER_BLOCK
                (\<lambda>tid svds. if tid < 12 then svds(16 * blockIdx + tid := smem_svds tid) else svds)
                svds))"

definition prepare_svd_kernel ::
  "int \<Rightarrow> int \<Rightarrow> int \<Rightarrow> int \<Rightarrow> payoff \<Rightarrow> dmem \<Rightarrow> (int \<Rightarrow> int) \<Rightarrow> dmem
     \<Rightarrow> (int \<Rightarrow> int) \<times> dmem \<Rightarrow> (int \<Rightarrow> int) \<times> dmem" where
  "prepare_svd_kernel gridDim NUM_THREADS_PER_BLOCK num_paths min_in_the_money payoff paths
       scan_input0 smem_svds0 mem =
     for_blocks gridDim
       (prepare_svd_block NUM_THREADS_PER_BLOCK num_paths min_in_the_money payoff paths
          scan_input0 smem_svds0) mem"

subsection \<open>Coefficient Estimator\<close>

text \<open>
  The pointers \<open>svd\<close>, \<open>paths\<close> and \<open>cashflows\<close> are offsets into \<open>d_svds\<close> and
  \<open>d_paths\<close>. A thread starts at its global index \<open>first_path\<close> and returns its
  \<open>(beta0, beta1, beta2)\<close>.
\<close>

definition compute_partial_beta_thread ::
  "int \<Rightarrow> int \<Rightarrow> payoff \<Rightarrow> dmem \<Rightarrow> int \<Rightarrow> dmem \<Rightarrow> int \<Rightarrow> int \<Rightarrow> int \<Rightarrow> real \<times> real \<times> real" where
  "compute_partial_beta_thread NUM_THREADS_PER_GRID num_paths payoff d_svds svd d_paths paths
       cashflows first_path =
    (let R00 = d_svds (svd + 0);
         R01 = d_svds (svd + 1);
         R02 = d_svds (svd + 2);
         R11 = d_svds (svd + 3);
         R12 = d_svds (svd + 4);
         R22 = d_svds (svd + 5);
         W00 = d_svds (svd + 6);
         W01 = d_svds (svd + 7);
         W02 = d_svds (svd + 8);
         W11 = d_svds (svd + 9);
         W12 = d_svds (svd + 10);
         W22 = d_svds (svd + 11);
         inv_R00 = inv_R R00;
         inv_R11 = inv_R R11;
         inv_R22 = inv_R R22;
         inv_R01 = inv_R00 * inv_R11 * R01;
         inv_R02 = inv_R00 * inv_R22 * R02;
         inv_R12 = inv_R22 * R12;
         inv_W00 = W00 * inv_R00
     in for_stride first_path num_paths NUM_THREADS_PER_GRID
          (\<lambda>path (beta0, beta1, beta2).
             let S = d_paths (paths + path);
                 in_the_money = is_in_the_money payoff S;
                 Q1i = inv_R11 * S - inv_R01;
                 Q2i = inv_R22 * S * S - inv_R02 - Q1i * inv_R12;
                 WI0 = inv_W00 + W01 * Q1i + W02 * Q2i;
                 WI1 = W11 * Q1i + W12 * Q2i;
                 WI2 = W22 * Q2i;
                 cashflow = (if in_the_money \<noteq> 0 then d_paths (cashflows + path) else 0)
             in (beta0 + WI0 * cashflow, beta1 + WI1 * cashflow, beta2 + WI2 * cashflow))
          (0, 0, 0))"

text \<open>
  The same thread with the three reciprocals of the diagonal of \<open>R\<close> as the partial
  operation: \<open>None\<close> is a division by zero.
\<close>

definition compute_partial_beta_thread_checked ::
  "int \<Rightarrow> int \<Rightarrow> payoff \<Rightarrow> dmem \<Rightarrow> int \<Rightarrow> dmem \<Rightarrow> int \<Rightarrow> int \<Rightarrow> int
     \<Rightarrow> (real \<times> real \<times> real) option" where
  "compute_partial_beta_thread_checked NUM_THREADS_PER_GRID num_paths payoff d_svds svd d_paths
       paths cashflows first_path =
    (let R00 = d_svds (svd + 0);
         R01 = d_svds (svd + 1);
         R02 = d_svds (svd + 2);
         R11 = d_svds (svd + 3);
         R12 = d_svds (svd + 4);
         R22 = d_svds (svd + 5);
         W00 = d_svds (svd + 6);
         W01 = d_svds (svd + 7);
         W02 = d_svds (svd + 8);
         W11 = d_svds (svd + 9);
         W12 = d_svds (svd + 10);
         W22 = d_svds (svd + 11)
     in (case inv_R_checked R00 of None \<Rightarrow> None | Some inv_R00 \<Rightarrow>
        (case inv_R_checked R11 of None \<Rightarrow> None | Some inv_R11 \<Rightarrow>
        (case inv_R_checked R22 of None \<Rightarrow> None | Some inv_R22 \<Rightarrow>
        Some
         (let inv_R01 = inv_R00 * inv_R11 * R01;
              inv_R02 = inv_R00 * inv_R22 * R02;
              inv_R12 = inv_R22 * R12;
              inv_W00 = W00 * inv_R00
          in for_stride first_path num_paths NUM_THREADS_PER_GRID
               (\<lambda>path (beta0, beta1, beta2).
                  let S = d_paths (paths + path);
                      in_the_money = is_in_the_money payoff S;
                      Q1i = inv_R11 * S - inv_R01;
                      Q2i = inv_R22 * S * S - inv_R02 - Q1i * inv_R12;
                      WI0 = inv_W00 + W01 * Q1i + W02 * Q2i;
                      WI1 = W11 * Q1i + W12 * Q2i;
                      WI2 = W22 * Q2i;
                      cashflow = (if in_the_money \<noteq> 0 then d_paths (cashflows + path) else 0)
                  in (beta0 + WI0 * cashflow, beta1 + WI1 * cashflow, beta2 + WI2 * cashflow))
               (0, 0, 0))))))"

definition compute_partial_beta_block ::
  "int \<Rightarrow> int \<Rightarrow> int \<Rightarrow> payoff \<Rightarrow> dmem \<Rightarrow> int \<Rightarrow> dmem \<Rightarrow> int \<Rightarrow> int \<Rightarrow> (int \<Rightarrow> int) \<Rightarrow> int
     \<Rightarrow> int \<Rightarrow> dmem \<Rightarrow> dmem" where
  "compute_partial_beta_block gridDim NUM_THREADS_PER_BLOCK num_paths payoff d_svds svd d_paths
       paths cashflows d_all_out_of_the_money all_out_of_the_money blockIdx partial_sums =
    (if d_all_out_of_the_money all_out_of_the_money \<noteq> 0 then partial_sums
     else
       let NUM_THREADS_PER_GRID = NUM_THREADS_PER_BLOCK * gridDim;
           beta = (\<lambda>tid. compute_partial_beta_thread NUM_THREADS_PER_GRID num_paths payoff d_svds
                            svd d_paths paths cashflows (blockIdx * NUM_THREADS_PER_BLOCK + tid));
           lsums_x = (\<Sum>tid = 0..<NUM_THREADS_PER_BLOCK. fst (beta tid));
           lsums_y = (\<Sum>tid = 0..<NUM_THREADS_PER_BLOCK. fst (snd (beta tid)));
           lsums_z = (\<Sum>tid = 0..<NUM_THREADS_PER_BLOCK. snd (snd (beta tid)));
           partial_sums = partial_sums(0 * NUM_THREADS_PER_BLOCK + blockIdx := lsums_x);
           partial_sums = partial_sums(1 * NUM_THREADS_PER_BLOCK + blockIdx := lsums_y)
       in partial_sums(2 * NUM_THREADS_PER_BLOCK + blockIdx := lsums_z))"

definition compute_partial_beta_kernel ::
  "int \<Rightarrow> int \<Rightarrow> int \<Rightarrow> payoff \<Rightarrow> dmem \<Rightarrow> int \<Rightarrow> dmem \<Rightarrow> int \<Rightarrow> int \<Rightarrow> (int \<Rightarrow> int) \<Rightarrow> int
     \<Rightarrow> dmem \<Rightarrow> dmem" where
  "compute_partial_beta_kernel gridDim NUM_THREADS_PER_BLOCK num_paths payoff d_svds svd d_paths
       paths cashflows d_all_out_of_the_money all_out_of_the_money partial_sums =
     for_blocks gridDim
       (compute_partial_beta_block gridDim NUM_THREADS_PER_BLOCK num_paths payoff d_svds svd
          d_paths paths cashflows d_all_out_of_the_money all_out_of_the_money) partial_sums"

text \<open>\<open>compute_final_beta_kernel\<close> runs as a single block and works on \<open>beta\<close> in place.\<close>

definition compute_final_beta_kernel ::
  "int \<Rightarrow> (int \<Rightarrow> int) \<Rightarrow> int \<Rightarrow> dmem \<Rightarrow> dmem" where
  "compute_final_beta_kernel NUM_THREADS_PER_BLOCK d_all_out_of_the_money all_out_of_the_money
       beta =
    (if d_all_out_of_the_money all_out_of_the_money \<noteq> 0 then
       for_threads NUM_THREADS_PER_BLOCK (\<lambda>tid beta. if tid < 3 then beta(tid := 0) else beta) beta
     else
       let lsums_x = (\<Sum>tid = 0..<NUM_THREADS_PER_BLOCK. beta (0 * NUM_THREADS_PER_BLOCK + tid));
           lsums_y = (\<Sum>tid = 0..<NUM_THREADS_PER_BLOCK. beta (1 * NUM_THREADS_PER_BLOCK + tid));
           lsums_z = (\<Sum>tid = 0..<NUM_THREADS_PER_BLOCK. beta (2 * NUM_THREADS_PER_BLOCK + tid));
           beta = beta(0 := lsums_x);
           beta = beta(1 := lsums_y)
       in beta(2 := lsums_z))"

subsection \<open>Cashflow Updater\<close>

text \<open>The body of the loop of \<open>update_cashflow_kernel\<close> for one path.\<close>

definition update_cashflow_path ::
  "payoff \<Rightarrow> real \<Rightarrow> real \<Rightarrow> real \<Rightarrow> real \<Rightarrow> int \<Rightarrow> int \<Rightarrow> int \<Rightarrow> int \<Rightarrow> dmem \<Rightarrow> dmem" where
  "update_cashflow_path payoff_object exp_min_r_dt beta0 beta1 beta2 skip_computations paths
       cashflows path d_paths =
    (let old_cashflow = exp_min_r_dt * d_paths (cashflows + path)
     in if skip_computations \<noteq> 0 then d_paths(cashflows + path := old_cashflow)
        else
          let S = d_paths (paths + path);
              S2 = S * S;
              payoff = payoff_value payoff_object S;
              estimated_payoff = beta0 + beta1 * S + beta2 * S2;
              estimated_payoff = estimated_payoff * exp_min_r_dt;
              payoff = (if payoff \<le> 1 / 10 ^ 8 \<or> payoff \<le> estimated_payoff then old_cashflow
                        else payoff)
          in d_paths(cashflows + path := payoff))"

definition update_cashflow_thread ::
  "int \<Rightarrow> int \<Rightarrow> payoff \<Rightarrow> real \<Rightarrow> dmem \<Rightarrow> int \<Rightarrow> (int \<Rightarrow> int) \<Rightarrow> int \<Rightarrow> int \<Rightarrow> int \<Rightarrow> dmem \<Rightarrow> dmem" where
  "update_cashflow_thread NUM_THREADS_PER_GRID num_paths payoff_object exp_min_r_dt beta paths
       d_all_out_of_the_money all_out_of_the_money cashflows first_path d_paths =
    (let skip_computations = d_all_out_of_the_money all_out_of_the_money;
         beta0 = beta 0;
         beta1 = beta 1;
         beta2 = beta 2
     in for_stride first_path num_paths NUM_THREADS_PER_GRID
          (update_cashflow_path payoff_object exp_min_r_dt beta0 beta1 beta2 skip_computations
             paths cashflows) d_paths)"

definition update_cashflow_kernel ::
  "int \<Rightarrow> int \<Rightarrow> int \<Rightarrow> payoff \<Rightarrow> real \<Rightarrow> dmem \<Rightarrow> int \<Rightarrow> (int \<Rightarrow> int) \<Rightarrow> int \<Rightarrow> int \<Rightarrow> dmem \<Rightarrow> dmem" where
  "update_cashflow_kernel gridDim NUM_THREADS_PER_BLOCK num_paths payoff_object exp_min_r_dt beta
       paths d_all_out_of_the_money all_out_of_the_money cashflows d_paths =
     for_threads (gridDim * NUM_THREADS_PER_BLOCK)
       (update_cashflow_thread (gridDim * NUM_THREADS_PER_BLOCK) num_paths payoff_object
          exp_min_r_dt beta paths d_all_out_of_the_money all_out_of_the_money cashflows) d_paths"

subsection \<open>Price Reducer\<close>

text \<open>
  The buffer \<open>sums\<close> of the source is \<open>sums'\<close> here and the local \<open>sum\<close> of a thread is
  \<open>thread_sum\<close>.
\<close>

definition compute_partial_sums_block ::
  "int \<Rightarrow> int \<Rightarrow> dmem \<Rightarrow> int \<Rightarrow> int \<Rightarrow> dmem \<Rightarrow> dmem" where
  "compute_partial_sums_block NUM_THREADS_PER_BLOCK num_paths d_paths cashflows blockIdx sums' =
    (let thread_sum = (\<lambda>tid. let path = blockIdx * NUM_THREADS_PER_BLOCK + tid
                       in if path < num_paths then d_paths (cashflows + path) else 0);
         lsum = (\<Sum>tid = 0..<NUM_THREADS_PER_BLOCK. thread_sum tid)
     in sums'(blockIdx := lsum))"

definition compute_partial_sums_kernel ::
  "int \<Rightarrow> int \<Rightarrow> int \<Rightarrow> dmem \<Rightarrow> int \<Rightarrow> dmem \<Rightarrow> dmem" where
  "compute_partial_sums_kernel gridDim NUM_THREADS_PER_BLOCK num_paths d_paths cashflows sums' =
     for_blocks gridDim
       (compute_partial_sums_block NUM_THREADS_PER_BLOCK num_paths d_paths cashflows) sums'"

definition compute_final_sum_kernel :: "int \<Rightarrow> int \<Rightarrow> int \<Rightarrow> real \<Rightarrow> dmem \<Rightarrow> dmem" where
  "compute_final_sum_kernel NUM_THREADS_PER_BLOCK num_paths num_blocks exp_min_r_dt sums' =
    (let thread_sum = (\<lambda>tid. for_stride tid num_blocks NUM_THREADS_PER_BLOCK
                                (\<lambda>item acc. acc + sums' item) 0);
         lsum = (\<Sum>tid = 0..<NUM_THREADS_PER_BLOCK. thread_sum tid)
     in sums'(0 := exp_min_r_dt * lsum / real_of_int num_paths))"

subsection \<open>Backward Induction Driver: \<open>do_run\<close>\<close>

text \<open>
  The runtime rejects a launch whose grid has fewer than one block, and
  \<open>CHECK_CUDA(cudaGetLastError())\<close> then ends the program with that status. The
  copies and the memset are taken to succeed.
\<close>

datatype cuda_error = cudaErrorInvalidConfiguration

definition launch :: "int \<Rightarrow> 'a \<Rightarrow> cuda_error + 'a" where
  "launch gridDim result = (if gridDim < 1 then Inl cudaErrorInvalidConfiguration else Inr result)"

definition CHECK_CUDA :: "cuda_error + 'a \<Rightarrow> ('a \<Rightarrow> cuda_error + 'b) \<Rightarrow> cuda_error + 'b" where
  "CHECK_CUDA status continue = (case status of Inl e \<Rightarrow> Inl e | Inr v \<Rightarrow> continue v)"

definition cudaMemcpy :: "dmem \<Rightarrow> dmem \<Rightarrow> int \<Rightarrow> dmem" where
  "cudaMemcpy dst src n = (\<lambda>i. if 0 \<le> i \<and> i < n then src i else dst i)"

definition cudaMemset :: "(int \<Rightarrow> int) \<Rightarrow> int \<Rightarrow> int \<Rightarrow> (int \<Rightarrow> int)" where
  "cudaMemset dst v n = (\<lambda>i. if 0 \<le> i \<and> i < n then v else dst i)"

text \<open>The cast \<open>(int) x\<close> of a \<open>double\<close> truncates towards zero.\<close>

definition double_to_int :: "real \<Rightarrow> int" where
  "double_to_int x = (if 0 \<le> x then \<lfloor>x\<rfloor> else \<lceil>x\<rceil>)"

text \<open>The body of the main loop: the three launches of one timestep.\<close>

definition lsm_timestep ::
  "int \<Rightarrow> payoff \<Rightarrow> real \<Rightarrow> int \<Rightarrow> dmem \<Rightarrow> (int \<Rightarrow> int) \<Rightarrow> int \<Rightarrow> int \<Rightarrow> dmem \<times> dmem
     \<Rightarrow> cuda_error + dmem \<times> dmem" where
  "lsm_timestep num_paths payoff exp_min_r_dt update_cashflow_grid d_svds d_all_out_of_the_money
       d_cashflows timestep mem =
    (let (d_paths, d_temp_storage) = mem;
         NUM_THREADS_PER_BLOCK2 = 128
     in CHECK_CUDA (launch NUM_THREADS_PER_BLOCK2
          (compute_partial_beta_kernel NUM_THREADS_PER_BLOCK2 NUM_THREADS_PER_BLOCK2 num_paths
             payoff d_svds (16 * timestep) d_paths (timestep * num_paths) d_cashflows
             d_all_out_of_the_money timestep d_temp_storage))
        (\<lambda>d_temp_storage.
        CHECK_CUDA (launch 1
          (compute_final_beta_kernel NUM_THREADS_PER_BLOCK2 d_all_out_of_the_money timestep
             d_temp_storage))
        (\<lambda>d_temp_storage.
        CHECK_CUDA (launch update_cashflow_grid
          (update_cashflow_kernel update_cashflow_grid NUM_THREADS_PER_BLOCK2 num_paths payoff
             exp_min_r_dt d_temp_storage (timestep * num_paths) d_all_out_of_the_money timestep
             d_cashflows d_paths))
        (\<lambda>d_paths. Inr (d_paths, d_temp_storage)))))"

function backward_induction ::
  "int \<Rightarrow> payoff \<Rightarrow> real \<Rightarrow> int \<Rightarrow> dmem \<Rightarrow> (int \<Rightarrow> int) \<Rightarrow> int \<Rightarrow> int \<Rightarrow> dmem \<times> dmem
     \<Rightarrow> cuda_error + dmem \<times> dmem" where
  "backward_induction num_paths payoff exp_min_r_dt update_cashflow_grid d_svds
       d_all_out_of_the_money d_cashflows timestep mem =
     (if timestep \<ge> 0 then
        CHECK_CUDA (lsm_timestep num_paths payoff exp_min_r_dt update_cashflow_grid d_svds
                      d_all_out_of_the_money d_cashflows timestep mem)
          (backward_induction num_paths payoff exp_min_r_dt update_cashflow_grid d_svds
             d_all_out_of_the_money d_cashflows (timestep - 1))
      else Inr mem)"
  by pat_completeness auto
termination
  by (relation "measure (\<lambda>(np, payoff, e, g, svds, flags, cf, timestep, mem). nat (timestep + 1))")
     auto

declare backward_induction.simps [simp del]

text \<open>The grid of \<open>update_cashflow_kernel\<close>, as \<open>do_run\<close> computes it.\<close>

definition update_cashflow_grid_of :: "int \<Rightarrow> int" where
  "update_cashflow_grid_of num_paths =
    (let num_threads_per_wave_full_occupancy = 256 * 112;
         NUM_THREADS_PER_BLOCK2 = 128;
         grid_dim = (num_paths + NUM_THREADS_PER_BLOCK2 - 1) sdiv NUM_THREADS_PER_BLOCK2;
         num_waves = real_of_int (grid_dim * NUM_THREADS_PER_BLOCK2)
                       / real_of_int num_threads_per_wave_full_occupancy
     in if num_waves < 10 \<and> num_waves - real_of_int (double_to_int num_waves) < 0.6
        then max 1 (double_to_int num_waves) * num_threads_per_wave_full_occupancy
               sdiv NUM_THREADS_PER_BLOCK2
        else grid_dim)"

text \<open>
  \<open>d_cashflows\<close> is an offset into \<open>d_paths\<close>; \<open>main\<close> passes
  \<open>d_paths + (num_timesteps-1)*num_paths\<close>. The result is \<open>h_price\<close>.
\<close>

definition do_run ::
  "dmem \<Rightarrow> int \<Rightarrow> int \<Rightarrow> payoff \<Rightarrow> real \<Rightarrow> real \<Rightarrow> real \<Rightarrow> real \<Rightarrow> dmem \<Rightarrow> dmem \<Rightarrow> int \<Rightarrow> dmem
     \<Rightarrow> (int \<Rightarrow> int) \<Rightarrow> dmem \<Rightarrow> (int \<Rightarrow> int) \<Rightarrow> dmem \<Rightarrow> cuda_error + real" where
  "do_run h_samples num_timesteps num_paths payoff dt S0 r sigma d_samples d_paths d_cashflows
       d_svds d_all_out_of_the_money d_temp_storage scan_input0 smem_svds0 =
    (let d_samples = cudaMemcpy d_samples h_samples (num_timesteps * num_paths);
         NUM_THREADS_PER_BLOCK0 = 256;
         grid_dim = (num_paths + NUM_THREADS_PER_BLOCK0 - 1) sdiv NUM_THREADS_PER_BLOCK0
     in CHECK_CUDA (launch grid_dim
          (generate_paths_kernel grid_dim NUM_THREADS_PER_BLOCK0 num_timesteps num_paths payoff dt
             S0 r sigma d_samples d_paths))
        (\<lambda>d_paths.
        let d_all_out_of_the_money = cudaMemset d_all_out_of_the_money 0 num_timesteps;
            NUM_THREADS_PER_BLOCK1 = 256
        in CHECK_CUDA (launch (num_timesteps - 1)
             (prepare_svd_kernel (num_timesteps - 1) NUM_THREADS_PER_BLOCK1 num_paths 4 payoff
                d_paths scan_input0 smem_svds0 (d_all_out_of_the_money, d_svds)))
        (\<lambda>(d_all_out_of_the_money, d_svds).
        let exp_min_r_dt = exp (- r * dt);
            update_cashflow_grid = update_cashflow_grid_of num_paths
        in CHECK_CUDA (backward_induction num_paths payoff exp_min_r_dt update_cashflow_grid
             d_svds d_all_out_of_the_money d_cashflows (num_timesteps - 2)
             (d_paths, d_temp_storage))
        (\<lambda>(d_paths, d_temp_storage).
        let NUM_THREADS_PER_BLOCK4 = 128;
            grid_dim = (num_paths + NUM_THREADS_PER_BLOCK4 - 1) sdiv NUM_THREADS_PER_BLOCK4
        in CHECK_CUDA (launch grid_dim
             (compute_partial_sums_kernel grid_dim NUM_THREADS_PER_BLOCK4 num_paths d_paths
                d_cashflows d_temp_storage))
        (\<lambda>d_temp_storage.
        CHECK_CUDA (launch 1
             (compute_final_sum_kernel NUM_THREADS_PER_BLOCK4 num_paths grid_dim exp_min_r_dt
                d_temp_storage))
        (\<lambda>d_temp_storage. Inr (d_temp_storage 0)))))))"

subsection \<open>Auxiliary definitions\<close>

text \<open>The paths that a loop with a stride visits from \<open>i\<close> on.\<close>

definition stride_set :: "int \<Rightarrow> int \<Rightarrow> int \<Rightarrow> int set" where
  "stride_set i n stride = {p. i \<le> p \<and> p < n \<and> (p - i) mod stride = 0}"


text \<open>The value the Cashflow Updater leaves for one path.\<close>

definition updated_cashflow ::
  "payoff \<Rightarrow> real \<Rightarrow> real \<Rightarrow> real \<Rightarrow> real \<Rightarrow> int \<Rightarrow> real \<Rightarrow> real \<Rightarrow> real" where
  "updated_cashflow payoff_object exp_min_r_dt beta0 beta1 beta2 skip_computations S cashflow =
     (if skip_computations \<noteq> 0 then exp_min_r_dt * cashflow
      else if payoff_value payoff_object S \<le> 1 / 10 ^ 8
            \<or> payoff_value payoff_object S \<le> (beta0 + beta1 * S + beta2 * (S * S)) * exp_min_r_dt
      then exp_min_r_dt * cashflow
      else payoff_value payoff_object S)"

text \<open>The eigenvalues on the diagonal of \<open>A\<close>, each with its column of \<open>V\<close>.\<close>

definition eigenpairs :: "jacobi \<Rightarrow> (real \<times> real \<times> real \<times> real) list" where
  "eigenpairs J =
     (case J of Jacobi A00 A01 A02 A11 A12 A22 V00 V01 V02 V10 V11 V12 V20 V21 V22 \<Rightarrow>
        [(A00, V00, V10, V20), (A11, V01, V11, V21), (A22, V02, V12, V22)])"

text \<open>
  The in-the-money indicator of path \<open>p\<close> in the row of prices at \<open>offset\<close>, the number of
  paths in the money among the first \<open>j\<close>, and the price that enters the power sums.
\<close>

definition itm_at :: "payoff \<Rightarrow> dmem \<Rightarrow> int \<Rightarrow> int \<Rightarrow> int" where
  "itm_at payoff paths offset p = is_in_the_money payoff (paths (offset + p))"

definition itm_count :: "payoff \<Rightarrow> dmem \<Rightarrow> int \<Rightarrow> int \<Rightarrow> int" where
  "itm_count payoff paths offset j = (\<Sum>p = 0..<j. itm_at payoff paths offset p)"

definition itm_price :: "payoff \<Rightarrow> dmem \<Rightarrow> int \<Rightarrow> int \<Rightarrow> real" where
  "itm_price payoff paths offset p =
     (if itm_at payoff paths offset p \<noteq> 0 then paths (offset + p) else 0)"

text \<open>
  What holds when the loop of \<open>prepare_svd_kernel\<close> is about to start the chunk at \<open>base\<close>:
  the locals \<open>m\<close> and \<open>sums\<close> of every thread cover the paths of that thread below
  \<open>base\<close>, the threads still in the loop agree on \<open>found_paths\<close>, and \<open>smem_svds\<close> holds
  the prices of the paths in the money seen so far, in path order, in its first three slots.
\<close>

definition svd_scan_inv ::
  "int \<Rightarrow> int \<Rightarrow> payoff \<Rightarrow> dmem \<Rightarrow> int \<Rightarrow> dmem \<Rightarrow> int \<Rightarrow> svd_block \<Rightarrow> bool" where
  "svd_scan_inv B n payoff paths offset smem0 base st \<longleftrightarrow>
     (\<forall>tid. 0 \<le> tid \<and> tid < B \<longrightarrow>
        thr_m st tid = (\<Sum>p\<in>{p \<in> {0..<min base n}. p mod B = tid}. itm_at payoff paths offset p)
      \<and> thr_sums_x st tid = (\<Sum>p\<in>{p \<in> {0..<min base n}. p mod B = tid}. itm_price payoff paths offset p)
      \<and> thr_sums_y st tid = (\<Sum>p\<in>{p \<in> {0..<min base n}. p mod B = tid}.
            itm_price payoff paths offset p * itm_price payoff paths offset p)
      \<and> thr_sums_z st tid = (\<Sum>p\<in>{p \<in> {0..<min base n}. p mod B = tid}.
            itm_price payoff paths offset p * itm_price payoff paths offset p
              * itm_price payoff paths offset p)
      \<and> thr_sums_w st tid = (\<Sum>p\<in>{p \<in> {0..<min base n}. p mod B = tid}.
            itm_price payoff paths offset p * itm_price payoff paths offset p
              * (itm_price payoff paths offset p * itm_price payoff paths offset p)))
   \<and> (\<forall>tid. 0 \<le> tid \<and> tid < B \<and> base + tid < n \<longrightarrow>
        (if itm_count payoff paths offset base < 3
         then thr_found_paths st tid = itm_count payoff paths offset base
         else 3 \<le> thr_found_paths st tid))
   \<and> (\<forall>p. 0 \<le> p \<and> p < min base n \<and> itm_at payoff paths offset p \<noteq> 0
            \<and> itm_count payoff paths offset p < 3
        \<longrightarrow> blk_smem_svds st (itm_count payoff paths offset p) = paths (offset + p))
   \<and> (\<forall>k. itm_count payoff paths offset (min base n) \<le> k \<longrightarrow> blk_smem_svds st k = smem0 k)"

text \<open>The scan of one chunk, as the threads of the chunk read it.\<close>

definition chunk_scan_input ::
  "int \<Rightarrow> int \<Rightarrow> payoff \<Rightarrow> dmem \<Rightarrow> int \<Rightarrow> int \<Rightarrow> svd_block \<Rightarrow> int \<Rightarrow> int" where
  "chunk_scan_input B n payoff paths offset base st =
     (\<lambda>tid. if 0 \<le> tid \<and> tid < B \<and> base + tid < n
            then is_in_the_money payoff (paths (offset + (base + tid))) else blk_scan_input st tid)"

text \<open>The paths in the money of a row of prices, in path order.\<close>

definition itm_paths :: "payoff \<Rightarrow> dmem \<Rightarrow> int \<Rightarrow> int \<Rightarrow> int list" where
  "itm_paths payoff paths offset n =
     filter (\<lambda>p. is_in_the_money payoff (paths (offset + p)) \<noteq> 0) [0..n - 1]"

text \<open>Shared memory after the threads below 12 have cleared their slot.\<close>

definition cleared_smem :: "int \<Rightarrow> dmem \<Rightarrow> dmem" where
  "cleared_smem B smem_svds0 =
     for_threads B (\<lambda>tid smem. if tid < 12 then smem(tid := 0) else smem) smem_svds0"

text \<open>What the first \<open>k\<close> threads of the launch have written.\<close>

definition paths_generated ::
  "int \<Rightarrow> int \<Rightarrow> payoff \<Rightarrow> real \<Rightarrow> real \<Rightarrow> real \<Rightarrow> real \<Rightarrow> dmem \<Rightarrow> dmem \<Rightarrow> int \<Rightarrow> dmem \<Rightarrow> bool" where
  "paths_generated nts np payoff dt S0 r sigma samples paths k out \<longleftrightarrow>
     (\<forall>p. 0 \<le> p \<and> p < k \<and> p < np \<longrightarrow>
        (\<forall>t. 0 \<le> t \<and> t < nts - 1
            \<longrightarrow> out (t * np + p) = gbm_price S0 r sigma dt samples np p (nat (t + 1)))
        \<and> out ((nts - 1) * np + p) = payoff_value payoff (gbm_price S0 r sigma dt samples np p (nat nts)))
     \<and> (\<forall>q. (\<forall>p t. 0 \<le> p \<and> p < k \<and> p < np \<and> 0 \<le> t \<and> t \<le> nts - 1 \<longrightarrow> q \<noteq> t * np + p)
            \<longrightarrow> out q = paths q)"










section \<open>Properties\<close>

subsection \<open>Threads of a launch\<close>

lemma for_threads_nonpos: "n \<le> 0 \<Longrightarrow> for_threads n thread s = s"
  by (simp add: for_threads_def)

lemma for_threads_step:
  "0 \<le> n \<Longrightarrow> for_threads (n + 1) thread s = thread n (for_threads n thread s)"
proof -
  assume n: "0 \<le> n"
  have "[0..n + 1 - 1] = [0..n - 1] @ [n]"
    using n upto_rec2 [of 0 n] by simp
  then show ?thesis by (simp add: for_threads_def)
qed

lemma for_threads_induct [consumes 1, case_names zero step]:
  assumes "0 \<le> n"
    and "P 0 s"
    and "\<And>k. 0 \<le> k \<Longrightarrow> k < n \<Longrightarrow> P k (for_threads k thread s)
            \<Longrightarrow> P (k + 1) (thread k (for_threads k thread s))"
  shows "P n (for_threads n thread s)"
proof -
  have "\<forall>k. 0 \<le> k \<and> k \<le> n \<longrightarrow> P k (for_threads k thread s)"
  proof (intro allI impI)
    fix k :: int
    assume "0 \<le> k \<and> k \<le> n"
    then have "0 \<le> k" "k \<le> n" by auto
    then show "P k (for_threads k thread s)"
    proof (induction k rule: int_ge_induct)
      case base
      then show ?case using assms(2) by (simp add: for_threads_nonpos)
    next
      case (step i)
      then show ?case using assms(3) [of i] by (simp add: for_threads_step)
    qed
  qed
  then show ?thesis using assms(1) by simp
qed

subsection \<open>Path Generator\<close>

lemma generate_paths_loop_spec:
  assumes "0 \<le> ts" "ts \<le> nts - 1" "0 < np"
    and "generate_paths_loop nts np ((r - sigma\<^sup>2 / 2) * dt) (sigma * sqrt dt) samples ts
           (gbm_price S0 r sigma dt samples np p (nat ts), ts * np + p, paths) = (S, offset, paths')"
  shows "S = gbm_price S0 r sigma dt samples np p (nat (nts - 1))
       \<and> offset = (nts - 1) * np + p
       \<and> (\<forall>t. ts \<le> t \<and> t < nts - 1
            \<longrightarrow> paths' (t * np + p) = gbm_price S0 r sigma dt samples np p (nat (t + 1)))
       \<and> (\<forall>q. (\<forall>t. ts \<le> t \<and> t < nts - 1 \<longrightarrow> q \<noteq> t * np + p) \<longrightarrow> paths' q = paths q)"
  using assms
proof (induction "nat (nts - 1 - ts)" arbitrary: ts paths)
  case 0
  then show ?case by (simp add: generate_paths_loop.simps)
next
  case (Suc n)
  have lt: "ts < nts - 1" and n: "n = nat (nts - 1 - (ts + 1))"
    and ts1: "0 \<le> ts + 1" "ts + 1 \<le> nts - 1"
    using Suc.hyps(2) Suc.prems by auto
  have nat1: "nat (ts + 1) = Suc (nat ts)" using Suc.prems(1) by (simp add: nat_add_distrib)
  let ?S1 = "gbm_price S0 r sigma dt samples np p (nat (ts + 1))"
  have S1: "?S1 = gbm_price S0 r sigma dt samples np p (nat ts)
      * exp ((r - sigma\<^sup>2 / 2) * dt + sigma * sqrt dt * samples (ts * np + p))"
    using Suc.prems(1) by (simp add: nat1)
  have unf: "generate_paths_loop nts np ((r - sigma\<^sup>2 / 2) * dt) (sigma * sqrt dt) samples ts
           (gbm_price S0 r sigma dt samples np p (nat ts), ts * np + p, paths)
      = generate_paths_loop nts np ((r - sigma\<^sup>2 / 2) * dt) (sigma * sqrt dt) samples (ts + 1)
           (?S1, (ts + 1) * np + p, paths(ts * np + p := ?S1))"
  proof -
    have off: "ts * np + p + np = (ts + 1) * np + p" by (simp add: algebra_simps)
    show ?thesis
      using lt by (subst generate_paths_loop.simps) (simp only: Let_def S1 [symmetric] off if_True)
  qed
  note IH = Suc.hyps(1) [OF n ts1 Suc.prems(3) Suc.prems(4) [unfolded unf]]
  have a: "paths' (t * np + p) = gbm_price S0 r sigma dt samples np p (nat (t + 1))"
    if t: "ts \<le> t" "t < nts - 1" for t
  proof (cases "t = ts")
    case True
    have "\<forall>t'. ts + 1 \<le> t' \<and> t' < nts - 1 \<longrightarrow> ts * np + p \<noteq> t' * np + p"
      using Suc.prems(3) by auto
    then have "paths' (ts * np + p) = (paths(ts * np + p := ?S1)) (ts * np + p)"
      using IH by blast
    then show ?thesis using True by simp
  next
    case False
    then show ?thesis using IH t by simp
  qed
  have b: "paths' q = paths q" if q: "\<forall>t. ts \<le> t \<and> t < nts - 1 \<longrightarrow> q \<noteq> t * np + p" for q
  proof -
    have "paths' q = (paths(ts * np + p := ?S1)) q"
      using IH q by auto
    moreover have "q \<noteq> ts * np + p" using q lt by auto
    ultimately show ?thesis by simp
  qed
  show ?case using IH a b by blast
qed

lemma row_offset_inj:
  fixes np :: int
  assumes "0 \<le> p" "p < np" "0 \<le> k" "k < np" "t * np + k = t' * np + p"
  shows "k = p \<and> t = t'"
proof -
  have "(t * np + k) mod np = (t' * np + p) mod np"
    by (simp only: assms(5))
  moreover have "(t * np + k) mod np = k" "(t' * np + p) mod np = p"
    using assms(1-4) by simp_all
  ultimately have kp: "k = p" by simp
  then have "t * np = t' * np" using assms(5) by simp
  then show ?thesis using kp assms by simp
qed

lemma generate_paths_thread_spec:
  assumes "1 \<le> nts" "0 \<le> p" "p < np"
  shows "(\<forall>t. 0 \<le> t \<and> t < nts - 1
            \<longrightarrow> generate_paths_thread nts np payoff dt S0 r sigma samples p paths (t * np + p)
                = gbm_price S0 r sigma dt samples np p (nat (t + 1)))
       \<and> generate_paths_thread nts np payoff dt S0 r sigma samples p paths ((nts - 1) * np + p)
           = payoff_value payoff (gbm_price S0 r sigma dt samples np p (nat nts))
       \<and> (\<forall>q. (\<forall>t. 0 \<le> t \<and> t \<le> nts - 1 \<longrightarrow> q \<noteq> t * np + p)
            \<longrightarrow> generate_paths_thread nts np payoff dt S0 r sigma samples p paths q = paths q)"
proof -
  obtain S offset paths' where
    loop: "generate_paths_loop nts np ((r - sigma\<^sup>2 / 2) * dt) (sigma * sqrt dt) samples 0
             (S0, p, paths) = (S, offset, paths')"
    by (metis prod_cases3)
  have np: "0 < np" using assms by simp
  have "generate_paths_loop nts np ((r - sigma\<^sup>2 / 2) * dt) (sigma * sqrt dt) samples 0
             (gbm_price S0 r sigma dt samples np p (nat 0), 0 * np + p, paths) = (S, offset, paths')"
    using loop by simp
  from generate_paths_loop_spec [OF _ _ np this] assms(1)
  have S: "S = gbm_price S0 r sigma dt samples np p (nat (nts - 1))"
    and offset: "offset = (nts - 1) * np + p"
    and written: "\<And>t. 0 \<le> t \<Longrightarrow> t < nts - 1
            \<Longrightarrow> paths' (t * np + p) = gbm_price S0 r sigma dt samples np p (nat (t + 1))"
    and kept: "\<And>q. (\<forall>t. 0 \<le> t \<and> t < nts - 1 \<longrightarrow> q \<noteq> t * np + p) \<Longrightarrow> paths' q = paths q"
    by simp_all
  have nat_nts: "nat nts = Suc (nat (nts - 1))" using assms(1) by simp
  have last: "S * exp ((r - sigma\<^sup>2 / 2) * dt + sigma * sqrt dt * samples offset)
      = gbm_price S0 r sigma dt samples np p (nat nts)"
    using assms(1) by (simp add: nat_nts S offset)
  have thread: "generate_paths_thread nts np payoff dt S0 r sigma samples p paths
      = paths'((nts - 1) * np + p := payoff_value payoff (gbm_price S0 r sigma dt samples np p (nat nts)))"
    using assms(3) loop [unfolded power2_eq_square] last [unfolded power2_eq_square]
    by (simp add: generate_paths_thread_def Let_def) (simp add: offset)
  have ne: "(t * np + p = (nts - 1) * np + p) = (t = nts - 1)" for t
    using np by simp
  show ?thesis
    unfolding thread
  proof (intro conjI allI impI)
    fix t assume "0 \<le> t \<and> t < nts - 1"
    then show "(paths'((nts - 1) * np + p := payoff_value payoff (gbm_price S0 r sigma dt samples np p (nat nts))))
          (t * np + p) = gbm_price S0 r sigma dt samples np p (nat (t + 1))"
      using written np by (simp add: ne)
  next
    show "(paths'((nts - 1) * np + p := payoff_value payoff (gbm_price S0 r sigma dt samples np p (nat nts))))
          ((nts - 1) * np + p) = payoff_value payoff (gbm_price S0 r sigma dt samples np p (nat nts))"
      by simp
  next
    fix q assume q: "\<forall>t. 0 \<le> t \<and> t \<le> nts - 1 \<longrightarrow> q \<noteq> t * np + p"
    then have "q \<noteq> (nts - 1) * np + p" using assms(1) by auto
    moreover have "paths' q = paths q" using q by (intro kept) auto
    ultimately show "(paths'((nts - 1) * np + p := payoff_value payoff (gbm_price S0 r sigma dt samples np p (nat nts))))
          q = paths q" by simp
  qed
qed

lemma generate_paths_thread_idle:
  "np \<le> p \<Longrightarrow> generate_paths_thread nts np payoff dt S0 r sigma samples p paths = paths"
  by (simp add: generate_paths_thread_def)

lemma generate_paths_kernel_spec:
  assumes nts: "1 \<le> nts" and n: "0 \<le> n"
  shows "paths_generated nts np payoff dt S0 r sigma samples paths n
           (for_threads n (generate_paths_thread nts np payoff dt S0 r sigma samples) paths)"
proof (rule for_threads_induct
    [where P = "paths_generated nts np payoff dt S0 r sigma samples paths", OF n], goal_cases)
  case 1
  then show ?case by (simp add: paths_generated_def)
next
  case step: (2 k)
  let ?th = "generate_paths_thread nts np payoff dt S0 r sigma samples"
  let ?s = "for_threads k ?th paths"
  show ?case
  proof (cases "k < np")
    case False
    then have "?th k ?s = ?s" by (simp add: generate_paths_thread_idle)
    moreover have "paths_generated nts np payoff dt S0 r sigma samples paths (k + 1) ?s"
      using step(3) False unfolding paths_generated_def
      by (smt (verit, best))
    ultimately show ?thesis by simp
  next
    case True
    note T = generate_paths_thread_spec [OF nts step(1) True, of payoff dt S0 r sigma samples ?s]
    from T have Tw: "\<And>t. 0 \<le> t \<Longrightarrow> t < nts - 1
          \<Longrightarrow> ?th k ?s (t * np + k) = gbm_price S0 r sigma dt samples np k (nat (t + 1))"
      and Tl: "?th k ?s ((nts - 1) * np + k)
           = payoff_value payoff (gbm_price S0 r sigma dt samples np k (nat nts))"
      and Tk: "\<And>q. (\<forall>t. 0 \<le> t \<and> t \<le> nts - 1 \<longrightarrow> q \<noteq> t * np + k) \<Longrightarrow> ?th k ?s q = ?s q"
      by blast+
    from step(3) have Iw: "\<And>p t. 0 \<le> p \<Longrightarrow> p < k \<Longrightarrow> p < np \<Longrightarrow> 0 \<le> t \<Longrightarrow> t < nts - 1
          \<Longrightarrow> ?s (t * np + p) = gbm_price S0 r sigma dt samples np p (nat (t + 1))"
      and Il: "\<And>p. 0 \<le> p \<Longrightarrow> p < k \<Longrightarrow> p < np \<Longrightarrow> ?s ((nts - 1) * np + p)
           = payoff_value payoff (gbm_price S0 r sigma dt samples np p (nat nts))"
      and Ik: "\<And>q. (\<forall>p t. 0 \<le> p \<and> p < k \<and> p < np \<and> 0 \<le> t \<and> t \<le> nts - 1 \<longrightarrow> q \<noteq> t * np + p)
            \<Longrightarrow> ?s q = paths q"
      unfolding paths_generated_def by blast+
    have other: "?th k ?s (t * np + p) = ?s (t * np + p)" if "0 \<le> p" "p < k" for t p
    proof (rule Tk, intro allI impI)
      fix t' assume "0 \<le> t' \<and> t' \<le> nts - 1"
      show "t * np + p \<noteq> t' * np + k"
        using row_offset_inj [of k np p t t'] that True step(1) by auto
    qed
    show ?thesis
      unfolding paths_generated_def
    proof (intro conjI allI impI)
      fix p t assume "0 \<le> p \<and> p < k + 1 \<and> p < np" "0 \<le> t \<and> t < nts - 1"
      then show "?th k ?s (t * np + p) = gbm_price S0 r sigma dt samples np p (nat (t + 1))"
        using Tw [of t] Iw [of p t] other [of p t] by (cases "p = k") auto
    next
      fix p assume "0 \<le> p \<and> p < k + 1 \<and> p < np"
      then show "?th k ?s ((nts - 1) * np + p)
           = payoff_value payoff (gbm_price S0 r sigma dt samples np p (nat nts))"
        using Tl Il [of p] other [of p "nts - 1"] by (cases "p = k") auto
    next
      fix q assume q: "\<forall>p t. 0 \<le> p \<and> p < k + 1 \<and> p < np \<and> 0 \<le> t \<and> t \<le> nts - 1 \<longrightarrow> q \<noteq> t * np + p"
      have "?th k ?s q = ?s q"
        using q True step(1) by (intro Tk) auto
      moreover have "?s q = paths q"
        using q by (intro Ik) auto
      ultimately show "?th k ?s q = paths q" by simp
    qed
  qed
qed

subsection \<open>Loops with a stride\<close>

lemma finite_stride_set [simp]: "finite (stride_set i n stride)"
proof -
  have "stride_set i n stride \<subseteq> {i..<n}" by (auto simp: stride_set_def)
  then show ?thesis using finite_subset by blast
qed

lemma stride_set_empty: "\<not> i < n \<Longrightarrow> stride_set i n stride = {}"
  by (auto simp: stride_set_def)

lemma stride_set_step:
  assumes "i < n" "0 < stride"
  shows "stride_set i n stride = insert i (stride_set (i + stride) n stride)"
    and "i \<notin> stride_set (i + stride) n stride"
proof -
  show "i \<notin> stride_set (i + stride) n stride" using assms by (simp add: stride_set_def)
  show "stride_set i n stride = insert i (stride_set (i + stride) n stride)"
  proof (intro set_eqI iffI)
    fix p assume p: "p \<in> stride_set i n stride"
    show "p \<in> insert i (stride_set (i + stride) n stride)"
    proof (cases "p = i")
      case False
      from p have a: "i \<le> p" "p < n" "(p - i) mod stride = 0" by (auto simp: stride_set_def)
      then have "stride dvd (p - i)" by auto
      then obtain k where k: "p - i = stride * k" by (auto simp: dvd_def)
      with a False assms have "0 < k" 
        by (smt (verit) mult_nonneg_nonpos)
      then have "stride * 1 \<le> stride * k" using assms by (intro mult_left_mono) auto
      then have "i + stride \<le> p" using k by simp
      moreover have "(p - (i + stride)) mod stride = 0"
        using a(3) by (metis diff_diff_eq mod_0_imp_dvd dvd_diff dvd_refl dvd_imp_mod_0 )
      ultimately show ?thesis using a by (simp add: stride_set_def)
    qed simp
  next
    fix p assume "p \<in> insert i (stride_set (i + stride) n stride)"
    then consider "p = i" | "p \<in> stride_set (i + stride) n stride" by auto
    then show "p \<in> stride_set i n stride"
    proof cases
      case 1 then show ?thesis using assms by (simp add: stride_set_def)
    next
      case 2
      then have a: "i + stride \<le> p" "p < n" "(p - (i + stride)) mod stride = 0"
        by (auto simp: stride_set_def)
      have "p - i = (p - (i + stride)) + stride" by simp
      then have "(p - i) mod stride = ((p - (i + stride)) + stride) mod stride" by (rule arg_cong)
      also have "\<dots> = (p - (i + stride)) mod stride" by (rule mod_add_self2)
      finally show ?thesis using a assms by (simp add: stride_set_def)
    qed
  qed
qed

lemma stride_set_thread:
  assumes "0 \<le> g" "g < G"
  shows "stride_set g n G = {p \<in> {0..<n}. p mod G = g}"
proof (intro set_eqI iffI)
  fix p assume "p \<in> stride_set g n G"
  then have a: "g \<le> p" "p < n" "(p - g) mod G = 0" by (auto simp: stride_set_def)
  have "p mod G = ((p - g) + g) mod G" by simp
  also have "\<dots> = g mod G" using a(3) by (metis add.commute mod_add_left_eq add_0 )
  finally show "p \<in> {p \<in> {0..<n}. p mod G = g}" using a assms by simp
next
  fix p assume "p \<in> {p \<in> {0..<n}. p mod G = g}"
  then have a: "0 \<le> p" "p < n" "p mod G = g" by auto
  have "g \<le> p" using a assms by (metis zmod_le_nonneg_dividend)
  moreover have "(p - g) mod G = 0" using a(3) by (metis minus_mod_eq_mult_div mod_mult_self1_is_0)
  ultimately show "p \<in> stride_set g n G" using a by (simp add: stride_set_def)
qed

lemma sum_stride_sets:
  fixes h :: "int \<Rightarrow> 'a::comm_monoid_add"
  assumes "0 < G"
  shows "(\<Sum>g = 0..<G. \<Sum>p\<in>stride_set g n G. h p) = (\<Sum>p = 0..<n. h p)"
proof -
  have "(\<Sum>g = 0..<G. \<Sum>p\<in>stride_set g n G. h p)
      = (\<Sum>g \<in> {0..<G}. \<Sum>p\<in>{p \<in> {0..<n}. p mod G = g}. h p)"
    by (intro sum.cong) (auto simp: stride_set_thread)
  also have "\<dots> = (\<Sum>p = 0..<n. h p)"
    using assms by (intro sum.group) auto
  finally show ?thesis .
qed

lemma for_stride_sum:
  fixes h :: "int \<Rightarrow> 'a::comm_monoid_add"
  assumes "0 < G"
  shows "for_stride i n G (\<lambda>p acc. acc + h p) a = a + (\<Sum>p\<in>stride_set i n G. h p)"
  using assms
proof (induction i n G "\<lambda>p acc. acc + h p" a rule: for_stride.induct)
  case (1 i n stride s)
  show ?case
  proof (cases "i < n")
    case True
    note st = stride_set_step [OF True 1(2)]
    have "for_stride i n stride (\<lambda>p acc. acc + h p) s
        = for_stride (i + stride) n stride (\<lambda>p acc. acc + h p) (s + h i)"
      using True 1(2) by (subst for_stride.simps) simp
    also have "\<dots> = s + h i + (\<Sum>p\<in>stride_set (i + stride) n stride. h p)"
      using 1 True by simp
    also have "\<dots> = s + (\<Sum>p\<in>stride_set i n stride. h p)"
    proof -
      have "(\<Sum>p\<in>stride_set i n stride. h p) = h i + (\<Sum>p\<in>stride_set (i + stride) n stride. h p)"
        using st(2) by (subst st(1)) simp
      then show ?thesis by (simp add: add.assoc)
    qed
    finally show ?thesis .
  next
    case False
    then show ?thesis by (subst for_stride.simps) (simp add: stride_set_empty)
  qed
qed

subsection \<open>Cashflow Updater\<close>

lemma update_cashflow_path_eq:
  "update_cashflow_path po e b0 b1 b2 skip paths cashflows path mem
     = mem(cashflows + path :=
         updated_cashflow po e b0 b1 b2 skip (mem (paths + path)) (mem (cashflows + path)))"
  by (simp add: update_cashflow_path_def updated_cashflow_def Let_def)

lemma for_stride_update_cashflow:
  assumes "0 < G" "0 \<le> i" "paths + n \<le> cashflows \<or> cashflows + n \<le> paths"
  shows "for_stride i n G (update_cashflow_path po e b0 b1 b2 skip paths cashflows) mem
     = (\<lambda>q. if q - cashflows \<in> stride_set i n G
             then updated_cashflow po e b0 b1 b2 skip (mem (paths + (q - cashflows))) (mem q)
             else mem q)"
  using assms
proof (induction i n G "update_cashflow_path po e b0 b1 b2 skip paths cashflows" mem
    rule: for_stride.induct)
  case (1 i n stride mem)
  show ?case
  proof (cases "i < n")
    case False
    then show ?thesis by (subst for_stride.simps) (simp add: stride_set_empty)
  next
    case True
    note st = stride_set_step [OF True 1(2)]
    let ?mem1 = "update_cashflow_path po e b0 b1 b2 skip paths cashflows i mem"
    have IH: "for_stride (i + stride) n stride (update_cashflow_path po e b0 b1 b2 skip paths cashflows) ?mem1
        = (\<lambda>q. if q - cashflows \<in> stride_set (i + stride) n stride
             then updated_cashflow po e b0 b1 b2 skip (?mem1 (paths + (q - cashflows))) (?mem1 q)
             else ?mem1 q)"
      using 1 True by simp
    have unf: "for_stride i n stride (update_cashflow_path po e b0 b1 b2 skip paths cashflows) mem
        = for_stride (i + stride) n stride (update_cashflow_path po e b0 b1 b2 skip paths cashflows) ?mem1"
      using True 1(2) by (subst for_stride.simps) simp
    show ?thesis
      unfolding unf IH
    proof (rule ext)
      fix q
      show "(if q - cashflows \<in> stride_set (i + stride) n stride
             then updated_cashflow po e b0 b1 b2 skip (?mem1 (paths + (q - cashflows))) (?mem1 q)
             else ?mem1 q)
          = (if q - cashflows \<in> stride_set i n stride
             then updated_cashflow po e b0 b1 b2 skip (mem (paths + (q - cashflows))) (mem q)
             else mem q)"
      proof (cases "q - cashflows \<in> stride_set (i + stride) n stride")
        case True
        then have r: "i + stride \<le> q - cashflows" "q - cashflows < n"
          by (auto simp: stride_set_def)
        have "q \<noteq> cashflows + i" using r 1(2) by auto
        moreover have "paths + (q - cashflows) \<noteq> cashflows + i"
          using r 1(2,3,4) \<open>i < n\<close> by auto
        ultimately show ?thesis using True
          by (simp add: update_cashflow_path_eq st(1))
      next
        case False
        then show ?thesis
          by (auto simp add: update_cashflow_path_eq st(1))
      qed
    qed
  qed
qed

lemma update_cashflow_kernel_spec:
  assumes G: "0 < gridDim * B" and dj: "paths + n \<le> cashflows \<or> cashflows + n \<le> paths"
  shows "update_cashflow_kernel gridDim B n po e beta paths flags flag cashflows mem
     = (\<lambda>q. if 0 \<le> q - cashflows \<and> q - cashflows < n
             then updated_cashflow po e (beta 0) (beta 1) (beta 2) (flags flag)
                    (mem (paths + (q - cashflows))) (mem q)
             else mem q)"
proof -
  let ?G = "gridDim * B"
  let ?th = "update_cashflow_thread ?G n po e beta paths flags flag cashflows"
  let ?new = "\<lambda>q. updated_cashflow po e (beta 0) (beta 1) (beta 2) (flags flag)
                    (mem (paths + (q - cashflows))) (mem q)"
  have "\<forall>k. 0 \<le> k \<and> k \<le> ?G \<longrightarrow> for_threads k ?th mem
      = (\<lambda>q. if 0 \<le> q - cashflows \<and> q - cashflows < n \<and> (q - cashflows) mod ?G < k
             then ?new q else mem q)"
  proof (intro allI impI)
    fix k assume "0 \<le> k \<and> k \<le> ?G"
    then have "0 \<le> k" "k \<le> ?G" by auto
    then show "for_threads k ?th mem
      = (\<lambda>q. if 0 \<le> q - cashflows \<and> q - cashflows < n \<and> (q - cashflows) mod ?G < k
             then ?new q else mem q)"
    proof (induction k rule: int_ge_induct)
      case base
      have "\<not> (q - cashflows) mod ?G < 0" for q using G by (simp add: pos_mod_sign leD)
      then show ?case by (simp add: for_threads_nonpos)
    next
      case (step k)
      let ?m = "for_threads k ?th mem"
      have m: "?m = (\<lambda>q. if 0 \<le> q - cashflows \<and> q - cashflows < n \<and> (q - cashflows) mod ?G < k
             then ?new q else mem q)" using step by simp
      have kG: "k < ?G" using step by simp
      have "?th k ?m = (\<lambda>q. if q - cashflows \<in> stride_set k n ?G
             then updated_cashflow po e (beta 0) (beta 1) (beta 2) (flags flag)
                    (?m (paths + (q - cashflows))) (?m q)
             else ?m q)"
        unfolding update_cashflow_thread_def Let_def
        by (rule for_stride_update_cashflow [OF G step(1) dj])
      also have "\<dots> = (\<lambda>q. if 0 \<le> q - cashflows \<and> q - cashflows < n \<and> (q - cashflows) mod ?G < k + 1
             then ?new q else mem q)"
      proof (rule ext)
        fix q
        show "(if q - cashflows \<in> stride_set k n ?G
             then updated_cashflow po e (beta 0) (beta 1) (beta 2) (flags flag)
                    (?m (paths + (q - cashflows))) (?m q)
             else ?m q)
          = (if 0 \<le> q - cashflows \<and> q - cashflows < n \<and> (q - cashflows) mod ?G < k + 1
             then ?new q else mem q)"
        proof (cases "q - cashflows \<in> stride_set k n ?G")
          case True
          then have r: "0 \<le> q - cashflows" "q - cashflows < n" "(q - cashflows) mod ?G = k"
            using stride_set_thread [OF step(1) kG, of n] by auto
          have "?m q = mem q" using r by (simp add: m)
          moreover have "?m (paths + (q - cashflows)) = mem (paths + (q - cashflows))"
          proof -
            have "\<not> (0 \<le> paths + (q - cashflows) - cashflows
                      \<and> paths + (q - cashflows) - cashflows < n)"
              using r dj by linarith
            then show ?thesis unfolding m by (auto simp only: if_False simp_thms split: if_splits)
          qed
          ultimately show ?thesis using True r by simp
        next
          case False
          then have "\<not> (0 \<le> q - cashflows \<and> q - cashflows < n \<and> (q - cashflows) mod ?G = k)"
            using stride_set_thread [OF step(1) kG, of n] by auto
          then show ?thesis using False by (auto simp: m)
        qed
      qed
      finally show ?case using step(1) by (simp add: for_threads_step)
    qed
  qed
  then have "for_threads ?G ?th mem
      = (\<lambda>q. if 0 \<le> q - cashflows \<and> q - cashflows < n \<and> (q - cashflows) mod ?G < ?G
             then ?new q else mem q)"
    using G by simp
  moreover have "(q - cashflows) mod ?G < ?G" for q using G by simp
  ultimately show ?thesis by (simp add: update_cashflow_kernel_def)
qed

subsection \<open>Threads that each write one cell\<close>

lemma for_threads_update_written:
  assumes "0 \<le> k" "k < n" "C k"
    and "\<And>j. k < j \<Longrightarrow> j < n \<Longrightarrow> C j \<Longrightarrow> idx j \<noteq> idx k"
  shows "for_threads n (\<lambda>k s. if C k then s(idx k := F k) else s) s0 (idx k) = F k"
proof -
  let ?th = "\<lambda>k s. if C k then s(idx k := F k) else s"
  have "\<forall>m. k + 1 \<le> m \<and> m \<le> n \<longrightarrow> for_threads m ?th s0 (idx k) = F k"
  proof (intro allI impI)
    fix m assume "k + 1 \<le> m \<and> m \<le> n"
    then have "k + 1 \<le> m" "m \<le> n" by auto
    then show "for_threads m ?th s0 (idx k) = F k"
    proof (induction m rule: int_ge_induct)
      case base
      then show ?case using assms(1,3) by (simp add: for_threads_step)
    next
      case (step i)
      then have "0 \<le> i" "k < i" "i < n" using assms(1) by auto
      then show ?case using step assms(4) [of i] by (auto simp add: for_threads_step)
    qed
  qed
  then show ?thesis using assms(2) by simp
qed

lemma for_threads_update_kept:
  assumes "\<And>j. 0 \<le> j \<Longrightarrow> j < n \<Longrightarrow> C j \<Longrightarrow> idx j \<noteq> q"
  shows "for_threads n (\<lambda>k s. if C k then s(idx k := F k) else s) s0 q = s0 q"
proof (cases "0 \<le> n")
  case False
  then show ?thesis by (simp add: for_threads_nonpos)
next
  case True
  let ?th = "\<lambda>k s. if C k then s(idx k := F k) else s"
  have "\<forall>m. 0 \<le> m \<and> m \<le> n \<longrightarrow> for_threads m ?th s0 q = s0 q"
  proof (intro allI impI)
    fix m assume "0 \<le> m \<and> m \<le> n"
    then have "0 \<le> m" "m \<le> n" by auto
    then show "for_threads m ?th s0 q = s0 q"
    proof (induction m rule: int_ge_induct)
      case base
      then show ?case by (simp add: for_threads_nonpos)
    next
      case (step i)
      then show ?case using assms [of i] by (auto simp add: for_threads_step)
    qed
  qed
  then show ?thesis using True by simp
qed


subsection \<open>Sums over blocks and threads\<close>

lemma sum_block_shift:
  fixes f :: "int \<Rightarrow> 'a::comm_monoid_add"
  shows "(\<Sum>tid = 0..<B. f (b + tid)) = (\<Sum>g = b..<b + B. f g)"
  by (rule sum.reindex_bij_witness [of _ "\<lambda>g. g - b" "\<lambda>tid. b + tid"]) auto

lemma sum_blocks_threads:
  fixes f :: "int \<Rightarrow> 'a::comm_monoid_add"
  assumes "0 \<le> nb" "0 \<le> B"
  shows "(\<Sum>b = 0..<nb. \<Sum>tid = 0..<B. f (b * B + tid)) = (\<Sum>g = 0..<nb * B. f g)"
  using assms(1)
proof (induction nb rule: int_ge_induct)
  case base
  then show ?case by simp
next
  case (step i)
  have "{0..<i + 1} = insert i {0..<i}" using step(1) by auto
  then have "(\<Sum>b = 0..<i + 1. \<Sum>tid = 0..<B. f (b * B + tid))
      = (\<Sum>tid = 0..<B. f (i * B + tid)) + (\<Sum>b = 0..<i. \<Sum>tid = 0..<B. f (b * B + tid))"
    by simp
  also have "\<dots> = (\<Sum>g = i * B..<i * B + B. f g) + (\<Sum>g = 0..<i * B. f g)"
    by (simp only: step(2) sum_block_shift [of f "i * B" B])
  also have "\<dots> = (\<Sum>g = 0..<i * B + B. f g)"
  proof -
    have "0 \<le> i * B" using step(1) assms(2) by simp
    then have "{0..<i * B + B} = {0..<i * B} \<union> {i * B..<i * B + B}"
      using assms(2) by auto
    moreover have "{0..<i * B} \<inter> {i * B..<i * B + B} = {}" by auto
    ultimately show ?thesis
      by (simp add: sum.union_disjoint add.commute)
  qed
  finally show ?case by (simp add: algebra_simps)
qed

lemma sum_zero_tail:
  fixes f :: "int \<Rightarrow> 'a::comm_monoid_add"
  assumes "n \<le> G" "\<And>g. n \<le> g \<Longrightarrow> g < G \<Longrightarrow> f g = 0"
  shows "(\<Sum>g = 0..<G. f g) = (\<Sum>g = 0..<n. f g)"
proof (rule sum.mono_neutral_right)
  show "finite {0..<G}" by simp
  show "{0..<n} \<subseteq> {0..<G}" using assms(1) by auto
  show "\<forall>i\<in>{0..<G} - {0..<n}. f i = 0" using assms(2) by auto
qed


subsection \<open>Price Reducer\<close>

lemma compute_partial_sums_kernel_spec:
  "compute_partial_sums_kernel gridDim B n d_paths cashflows sums' b
     = (if 0 \<le> b \<and> b < gridDim
        then (\<Sum>tid = 0..<B. if b * B + tid < n then d_paths (cashflows + (b * B + tid)) else 0)
        else sums' b)"
proof -
  have blk: "compute_partial_sums_block B n d_paths cashflows
      = (\<lambda>b s. if True then s(b := (\<Sum>tid = 0..<B. if b * B + tid < n
                                        then d_paths (cashflows + (b * B + tid)) else 0)) else s)"
    by (intro ext) (simp add: compute_partial_sums_block_def Let_def)
  show ?thesis
  proof (cases "0 \<le> b \<and> b < gridDim")
    case True
    then show ?thesis
      unfolding compute_partial_sums_kernel_def blk
      using for_threads_update_written [of b gridDim "\<lambda>_. True" "\<lambda>b. b"]
      by simp
  next
    case False
    then show ?thesis
      unfolding compute_partial_sums_kernel_def blk
      using for_threads_update_kept [of gridDim "\<lambda>_. True" "\<lambda>b. b" b]
      by auto
  qed
qed

lemma compute_final_sum_kernel_spec:
  assumes "0 < B"
  shows "compute_final_sum_kernel B n num_blocks e sums' 0
     = e * (\<Sum>item = 0..<num_blocks. sums' item) / real_of_int n"
  using assms by (simp add: compute_final_sum_kernel_def Let_def for_stride_sum sum_stride_sets)

subsection \<open>Regression Builder: the scan over the paths\<close>

lemma itm_at_01: "itm_at payoff paths offset p = 0 \<or> itm_at payoff paths offset p = 1"
  by (cases payoff) (simp_all add: itm_at_def)

lemma itm_at_nonneg: "0 \<le> itm_at payoff paths offset p"
  using itm_at_01 [of payoff paths offset p] by auto

lemma itm_count_Suc:
  "0 \<le> j \<Longrightarrow> itm_count payoff paths offset (j + 1)
      = itm_count payoff paths offset j + itm_at payoff paths offset j"
proof -
  assume "0 \<le> j"
  then have "{0..<j + 1} = insert j {0..<j}" by auto
  then show ?thesis by (simp add: itm_count_def)
qed

lemma itm_count_mono:
  "i \<le> j \<Longrightarrow> itm_count payoff paths offset i \<le> itm_count payoff paths offset j"
  unfolding itm_count_def
  by (intro sum_mono2) (auto simp: itm_at_nonneg)

lemma itm_count_strict:
  assumes "0 \<le> p" "p < q" "itm_at payoff paths offset p \<noteq> 0"
  shows "itm_count payoff paths offset p < itm_count payoff paths offset q"
proof -
  have "itm_at payoff paths offset p = 1" using assms(3) itm_at_01 [of payoff paths offset p] by auto
  then have "itm_count payoff paths offset (p + 1) = itm_count payoff paths offset p + 1"
    using assms(1) by (simp add: itm_count_Suc)
  moreover have "itm_count payoff paths offset (p + 1) \<le> itm_count payoff paths offset q"
    using assms(2) by (intro itm_count_mono) simp
  ultimately show ?thesis by simp
qed

lemma itm_count_upper: "itm_count payoff paths offset j \<le> max 0 j"
proof -
  have "itm_count payoff paths offset j \<le> (\<Sum>p = 0..<j. 1)"
    unfolding itm_count_def using itm_at_01 by (intro sum_mono) (smt (verit))
  then show ?thesis by (simp split: if_splits)
qed

lemma scan_output_sum: "scan_output f n = (\<Sum>j = 0..<int n. f j)"
proof (induction n)
  case 0
  then show ?case by simp
next
  case (Suc n)
  have "{0..<int (Suc n)} = insert (int n) {0..<int n}" by auto
  then show ?case using Suc by simp
qed

lemma scan_output_chunk:
  assumes "0 \<le> base" "0 \<le> k" "\<And>j. 0 \<le> j \<Longrightarrow> j < k \<Longrightarrow> f j = itm_at payoff paths offset (base + j)"
  shows "scan_output f (nat k)
      = itm_count payoff paths offset (base + k) - itm_count payoff paths offset base"
proof -
  have "scan_output f (nat k) = (\<Sum>j = 0..<k. itm_at payoff paths offset (base + j))"
    using assms by (simp add: scan_output_sum)
  also have "\<dots> = (\<Sum>p = base..<base + k. itm_at payoff paths offset p)"
    by (rule sum_block_shift)
  also have "\<dots> = itm_count payoff paths offset (base + k) - itm_count payoff paths offset base"
  proof -
    have "{0..<base + k} = {0..<base} \<union> {base..<base + k}" using assms(1,2) by auto
    moreover have "{0..<base} \<inter> {base..<base + k} = {}" by auto
    ultimately show ?thesis by (simp add: itm_count_def sum.union_disjoint)
  qed
  finally show ?thesis .
qed

lemma block_or_zero:
  assumes "for_threads n (\<lambda>tid lsum. if A tid then lsum OR f tid else lsum) (0::int) = 0"
    and "0 \<le> tid" "tid < n" "A tid"
  shows "f tid = 0"
proof -
  let ?th = "\<lambda>tid lsum. if A tid then lsum OR f tid else lsum"
  have "\<forall>m. 0 \<le> m \<and> m \<le> n \<longrightarrow>
      (for_threads m ?th 0 = 0 \<longleftrightarrow> (\<forall>t. 0 \<le> t \<and> t < m \<and> A t \<longrightarrow> f t = 0))"
  proof (intro allI impI)
    fix m assume "0 \<le> m \<and> m \<le> n"
    then have "0 \<le> m" "m \<le> n" by auto
    then show "for_threads m ?th 0 = 0 \<longleftrightarrow> (\<forall>t. 0 \<le> t \<and> t < m \<and> A t \<longrightarrow> f t = 0)"
    proof (induction m rule: int_ge_induct)
      case base
      then show ?case by (simp add: for_threads_nonpos)
    next
      case (step i)
      have "(\<forall>t. 0 \<le> t \<and> t < i + 1 \<and> A t \<longrightarrow> f t = 0)
          \<longleftrightarrow> (\<forall>t. 0 \<le> t \<and> t < i \<and> A t \<longrightarrow> f t = 0) \<and> (A i \<longrightarrow> f i = 0)"
        using step(1) by (smt (verit, best))
      then show ?case using step by (simp add: for_threads_step or_eq_0_iff)
    qed
  qed
  then show ?thesis using assms by (smt (verit, best))
qed

text \<open>The paths of one thread among the first \<open>base\<close>, and one chunk more.\<close>

lemma chunk_set_step:
  fixes B base tid n :: int
  assumes "0 < B" "0 \<le> base" "base mod B = 0" "0 \<le> tid" "tid < B" "base < n"
  shows "{p \<in> {0..<min (base + B) n}. p mod B = tid}
      = (if base + tid < n then insert (base + tid) {p \<in> {0..<min base n}. p mod B = tid}
         else {p \<in> {0..<min base n}. p mod B = tid})"
    and "base + tid \<notin> {p \<in> {0..<min base n}. p mod B = tid}"
proof -
  show "base + tid \<notin> {p \<in> {0..<min base n}. p mod B = tid}" using assms by auto
  have m: "(base + tid) mod B = tid"
    using assms by (metis mod_add_left_eq add_0 mod_pos_pos_trivial)
  have u: "p = base + tid" if "base \<le> p" "p < base + B" "p mod B = tid" for p
  proof -
    have "(p - base) mod B = p mod B" using assms(3) by (metis mod_diff_right_eq diff_zero mod_mod_trivial)
    moreover have "(p - base) mod B = p - base" using that assms by simp
    ultimately show ?thesis using that by simp
  qed
  show "{p \<in> {0..<min (base + B) n}. p mod B = tid}
      = (if base + tid < n then insert (base + tid) {p \<in> {0..<min base n}. p mod B = tid}
         else {p \<in> {0..<min base n}. p mod B = tid})"
  proof (intro set_eqI iffI)
    fix p assume "p \<in> {p \<in> {0..<min (base + B) n}. p mod B = tid}"
    then have p: "0 \<le> p" "p < base + B" "p < n" "p mod B = tid" by auto
    show "p \<in> (if base + tid < n then insert (base + tid) {p \<in> {0..<min base n}. p mod B = tid}
         else {p \<in> {0..<min base n}. p mod B = tid})"
    proof (cases "p < base")
      case True
      then show ?thesis using p by auto
    next
      case False
      then have "p = base + tid" using u p by simp
      then show ?thesis using p by auto
    qed
  next
    fix p assume "p \<in> (if base + tid < n then insert (base + tid) {p \<in> {0..<min base n}. p mod B = tid}
         else {p \<in> {0..<min base n}. p mod B = tid})"
    then show "p \<in> {p \<in> {0..<min (base + B) n}. p mod B = tid}"
      using assms m by (auto split: if_splits)
  qed
qed

lemma chunk_sum_step:
  fixes h :: "int \<Rightarrow> 'a::comm_monoid_add"
  assumes "0 < B" "0 \<le> base" "base mod B = 0" "0 \<le> tid" "tid < B" "base < n"
  shows "(\<Sum>p\<in>{p \<in> {0..<min (base + B) n}. p mod B = tid}. h p)
      = (\<Sum>p\<in>{p \<in> {0..<min base n}. p mod B = tid}. h p) + (if base + tid < n then h (base + tid) else 0)"
proof -
  let ?S = "{p \<in> {0..<min base n}. p mod B = tid}"
  have fin: "finite ?S" by (rule finite_subset [of _ "{0..<min base n}"]) auto
  show ?thesis
  proof (cases "base + tid < n")
    case True
    have "(\<Sum>p\<in>insert (base + tid) ?S. h p) = h (base + tid) + (\<Sum>p\<in>?S. h p)"
      by (rule sum.insert [OF fin chunk_set_step(2) [OF assms]])
    then show ?thesis
      unfolding chunk_set_step(1) [OF assms] using True by (simp only: if_True add.commute)
  next
    case False
    then show ?thesis
      unfolding chunk_set_step(1) [OF assms] by (simp only: if_False add_0_right)
  qed
qed

lemma iteration_lsum_zero:
  assumes "for_threads B (\<lambda>tid lsum. if 0 \<le> tid \<and> tid < B \<and> base + tid < n
              then lsum OR is_in_the_money payoff (paths (offset + (base + tid))) else lsum) 0 = 0"
    and "0 \<le> tid" "tid < B" "base + tid < n"
  shows "is_in_the_money payoff (paths (offset + (base + tid))) = 0"
  using block_or_zero [where A = "\<lambda>tid. 0 \<le> tid \<and> tid < B \<and> base + tid < n"
      and f = "\<lambda>tid. is_in_the_money payoff (paths (offset + (base + tid)))", OF assms(1)]
    assms(2-4) by simp

lemma iteration_accumulators:
  assumes "0 \<le> tid" "tid < B"
  shows "thr_m (prepare_svd_iteration B n payoff paths offset base st) tid
      = thr_m st tid + (if base + tid < n then itm_at payoff paths offset (base + tid) else 0)"
    and "thr_sums_x (prepare_svd_iteration B n payoff paths offset base st) tid
      = thr_sums_x st tid + (if base + tid < n then itm_price payoff paths offset (base + tid) else 0)"
    and "thr_sums_y (prepare_svd_iteration B n payoff paths offset base st) tid
      = thr_sums_y st tid + (if base + tid < n then itm_price payoff paths offset (base + tid)
            * itm_price payoff paths offset (base + tid) else 0)"
    and "thr_sums_z (prepare_svd_iteration B n payoff paths offset base st) tid
      = thr_sums_z st tid + (if base + tid < n then itm_price payoff paths offset (base + tid)
            * itm_price payoff paths offset (base + tid) * itm_price payoff paths offset (base + tid)
          else 0)"
    and "thr_sums_w (prepare_svd_iteration B n payoff paths offset base st) tid
      = thr_sums_w st tid + (if base + tid < n then itm_price payoff paths offset (base + tid)
            * itm_price payoff paths offset (base + tid)
            * (itm_price payoff paths offset (base + tid) * itm_price payoff paths offset (base + tid))
          else 0)"
proof -
  let ?lsum = "for_threads B (\<lambda>tid lsum. if 0 \<le> tid \<and> tid < B \<and> base + tid < n
              then lsum OR is_in_the_money payoff (paths (offset + (base + tid))) else lsum) 0"
  have z: "is_in_the_money payoff (paths (offset + (base + tid))) = 0"
    if "?lsum = 0" "base + tid < n"
    using iteration_lsum_zero [OF that(1) assms that(2)] .
  show "thr_m (prepare_svd_iteration B n payoff paths offset base st) tid
      = thr_m st tid + (if base + tid < n then itm_at payoff paths offset (base + tid) else 0)"
    using assms z by (auto simp add: prepare_svd_iteration_def Let_def itm_at_def)
  show "thr_sums_x (prepare_svd_iteration B n payoff paths offset base st) tid
      = thr_sums_x st tid + (if base + tid < n then itm_price payoff paths offset (base + tid) else 0)"
    using assms z by (auto simp add: prepare_svd_iteration_def Let_def itm_at_def itm_price_def)
  show "thr_sums_y (prepare_svd_iteration B n payoff paths offset base st) tid
      = thr_sums_y st tid + (if base + tid < n then itm_price payoff paths offset (base + tid)
            * itm_price payoff paths offset (base + tid) else 0)"
    using assms z by (auto simp add: prepare_svd_iteration_def Let_def itm_at_def itm_price_def)
  show "thr_sums_z (prepare_svd_iteration B n payoff paths offset base st) tid
      = thr_sums_z st tid + (if base + tid < n then itm_price payoff paths offset (base + tid)
            * itm_price payoff paths offset (base + tid) * itm_price payoff paths offset (base + tid)
          else 0)"
    using assms z by (auto simp add: prepare_svd_iteration_def Let_def itm_at_def itm_price_def)
  show "thr_sums_w (prepare_svd_iteration B n payoff paths offset base st) tid
      = thr_sums_w st tid + (if base + tid < n then itm_price payoff paths offset (base + tid)
            * itm_price payoff paths offset (base + tid)
            * (itm_price payoff paths offset (base + tid) * itm_price payoff paths offset (base + tid))
          else 0)"
    using assms z by (auto simp add: prepare_svd_iteration_def Let_def itm_at_def itm_price_def)
qed

lemma chunk_partial_sum:
  assumes "0 \<le> base" "0 \<le> k" "k \<le> B" "base + k \<le> n"
  shows "scan_output (chunk_scan_input B n payoff paths offset base st) (nat k)
      = itm_count payoff paths offset (base + k) - itm_count payoff paths offset base"
  using assms
  by (intro scan_output_chunk) (auto simp add: chunk_scan_input_def itm_at_def)

lemma iteration_found_paths:
  "thr_found_paths (prepare_svd_iteration B n payoff paths offset base st) tid
     = (if (0 \<le> tid \<and> tid < B \<and> base + tid < n) \<and> thr_found_paths st tid < 3
        then thr_found_paths st tid
               + scan_output (chunk_scan_input B n payoff paths offset base st) (nat B)
        else thr_found_paths st tid)"
  by (simp add: prepare_svd_iteration_def Let_def chunk_scan_input_def)

lemma iteration_smem_svds:
  "blk_smem_svds (prepare_svd_iteration B n payoff paths offset base st)
     = for_threads B
         (\<lambda>tid smem.
            if (0 \<le> tid \<and> tid < B \<and> base + tid < n) \<and> thr_found_paths st tid < 3
                 \<and> is_in_the_money payoff (paths (offset + (base + tid))) \<noteq> 0
                 \<and> thr_found_paths st tid
                      + scan_output (chunk_scan_input B n payoff paths offset base st) (nat tid) < 3
            then smem(thr_found_paths st tid
                      + scan_output (chunk_scan_input B n payoff paths offset base st) (nat tid)
                    := paths (offset + (base + tid)))
            else smem)
         (blk_smem_svds st)"
  unfolding prepare_svd_iteration_def Let_def chunk_scan_input_def by simp

lemma svd_scan_inv_step:
  assumes B: "0 < B" and base: "0 \<le> base" "base mod B = 0" "base < n"
    and inv: "svd_scan_inv B n payoff paths offset smem0 base st"
  shows "svd_scan_inv B n payoff paths offset smem0 (base + B)
           (prepare_svd_iteration B n payoff paths offset base st)"
proof -
  let ?st' = "prepare_svd_iteration B n payoff paths offset base st"
  let ?cnt = "itm_count payoff paths offset"
  let ?itm = "itm_at payoff paths offset"
  let ?scan = "chunk_scan_input B n payoff paths offset base st"
  let ?A = "\<lambda>tid. 0 \<le> tid \<and> tid < B \<and> base + tid < n"
  let ?C = "\<lambda>tid. ?A tid \<and> thr_found_paths st tid < 3
                 \<and> is_in_the_money payoff (paths (offset + (base + tid))) \<noteq> 0
                 \<and> thr_found_paths st tid + scan_output ?scan (nat tid) < 3"
  let ?idx = "\<lambda>tid. thr_found_paths st tid + scan_output ?scan (nat tid)"
  let ?F = "\<lambda>tid. paths (offset + (base + tid))"
  have minb: "min base n = base" using base by simp
  from inv have acc: "\<And>tid. 0 \<le> tid \<Longrightarrow> tid < B \<Longrightarrow>
        thr_m st tid = (\<Sum>p\<in>{p \<in> {0..<min base n}. p mod B = tid}. itm_at payoff paths offset p)
      \<and> thr_sums_x st tid = (\<Sum>p\<in>{p \<in> {0..<min base n}. p mod B = tid}. itm_price payoff paths offset p)
      \<and> thr_sums_y st tid = (\<Sum>p\<in>{p \<in> {0..<min base n}. p mod B = tid}.
            itm_price payoff paths offset p * itm_price payoff paths offset p)
      \<and> thr_sums_z st tid = (\<Sum>p\<in>{p \<in> {0..<min base n}. p mod B = tid}.
            itm_price payoff paths offset p * itm_price payoff paths offset p
              * itm_price payoff paths offset p)
      \<and> thr_sums_w st tid = (\<Sum>p\<in>{p \<in> {0..<min base n}. p mod B = tid}.
            itm_price payoff paths offset p * itm_price payoff paths offset p
              * (itm_price payoff paths offset p * itm_price payoff paths offset p))"
    and found: "\<And>tid. 0 \<le> tid \<Longrightarrow> tid < B \<Longrightarrow> base + tid < n \<Longrightarrow>
        (if ?cnt base < 3 then thr_found_paths st tid = ?cnt base else 3 \<le> thr_found_paths st tid)"
    and seeds: "\<And>p. 0 \<le> p \<Longrightarrow> p < base \<Longrightarrow> ?itm p \<noteq> 0 \<Longrightarrow> ?cnt p < 3
        \<Longrightarrow> blk_smem_svds st (?cnt p) = paths (offset + p)"
    and rest: "\<And>k. ?cnt base \<le> k \<Longrightarrow> blk_smem_svds st k = smem0 k"
    unfolding svd_scan_inv_def minb by blast+
  have partial: "scan_output ?scan (nat tid) = ?cnt (base + tid) - ?cnt base"
    if "0 \<le> tid" "tid < B" "base + tid < n" for tid
    using that base by (intro chunk_partial_sum) simp_all
  have idx: "?idx tid = ?cnt (base + tid)" if "?C tid" for tid
    using that found [of tid] partial [of tid] by (simp split: if_splits)
  have C_iff: "?C tid \<longleftrightarrow> ?A tid \<and> ?itm (base + tid) \<noteq> 0 \<and> ?cnt (base + tid) < 3" for tid
  proof (cases "?A tid")
    case False
    then show ?thesis by blast
  next
    case True
    then have t: "0 \<le> tid" "tid < B" "base + tid < n" by auto
    have le: "?cnt base \<le> ?cnt (base + tid)" using t by (intro itm_count_mono) simp
    show ?thesis
      using found [OF t] partial [OF t] le True
      by (auto simp add: itm_at_def split: if_splits)
  qed
  have smem': "blk_smem_svds ?st'
      = for_threads B (\<lambda>tid smem. if ?C tid then smem(?idx tid := ?F tid) else smem)
          (blk_smem_svds st)"
    by (rule iteration_smem_svds)
  \<comment> \<open>the accumulators\<close>
  have 1: "thr_m ?st' tid = (\<Sum>p\<in>{p \<in> {0..<min (base + B) n}. p mod B = tid}. ?itm p)
      \<and> thr_sums_x ?st' tid = (\<Sum>p\<in>{p \<in> {0..<min (base + B) n}. p mod B = tid}. itm_price payoff paths offset p)
      \<and> thr_sums_y ?st' tid = (\<Sum>p\<in>{p \<in> {0..<min (base + B) n}. p mod B = tid}.
            itm_price payoff paths offset p * itm_price payoff paths offset p)
      \<and> thr_sums_z ?st' tid = (\<Sum>p\<in>{p \<in> {0..<min (base + B) n}. p mod B = tid}.
            itm_price payoff paths offset p * itm_price payoff paths offset p
              * itm_price payoff paths offset p)
      \<and> thr_sums_w ?st' tid = (\<Sum>p\<in>{p \<in> {0..<min (base + B) n}. p mod B = tid}.
            itm_price payoff paths offset p * itm_price payoff paths offset p
              * (itm_price payoff paths offset p * itm_price payoff paths offset p))"
    if t: "0 \<le> tid" "tid < B" for tid
    unfolding iteration_accumulators [OF t] chunk_sum_step [OF B base(1,2) t base(3)]
    using acc [OF t] by simp
  \<comment> \<open>\<open>found_paths\<close>\<close>
  have 2: "if ?cnt (base + B) < 3 then thr_found_paths ?st' tid = ?cnt (base + B)
           else 3 \<le> thr_found_paths ?st' tid"
    if t: "0 \<le> tid" "tid < B" "base + B + tid < n" for tid
  proof -
    have t': "base + tid < n" using t B by simp
    have total: "scan_output ?scan (nat B) = ?cnt (base + B) - ?cnt base"
      using base B t by (intro chunk_partial_sum) simp_all
    have le: "?cnt base \<le> ?cnt (base + B)" using B by (intro itm_count_mono) simp
    show ?thesis
      unfolding iteration_found_paths total
      using found [OF t(1,2) t'] t t' le by (auto split: if_splits)
  qed
  \<comment> \<open>the seeds\<close>
  have 3: "blk_smem_svds ?st' (?cnt p) = paths (offset + p)"
    if p: "0 \<le> p" "p < min (base + B) n" "?itm p \<noteq> 0" "?cnt p < 3" for p
  proof (cases "p < base")
    case True
    have "blk_smem_svds ?st' (?cnt p) = blk_smem_svds st (?cnt p)"
      unfolding smem'
    proof (rule for_threads_update_kept [where C = ?C and idx = ?idx and F = ?F])
      fix j assume j: "0 \<le> j" "j < B" "?C j"
      have "?cnt p < ?cnt (base + j)"
        using p(1,3) True j(1) by (intro itm_count_strict) simp_all
      then show "?idx j \<noteq> ?cnt p" using idx [OF j(3)] by simp
    qed
    then show ?thesis using seeds [OF p(1) True p(3,4)] by simp
  next
    case False
    define tid where "tid = p - base"
    have t: "0 \<le> tid" "tid < B" "base + tid < n" "p = base + tid"
      using False p(2) by (simp_all add: tid_def)
    have "?A tid \<and> ?itm (base + tid) \<noteq> 0 \<and> ?cnt (base + tid) < 3"
      using t p(3,4) by simp
    then have C: "?C tid" using C_iff [of tid] by blast
    have "blk_smem_svds ?st' (?idx tid) = ?F tid"
      unfolding smem'
    proof (rule for_threads_update_written [where C = ?C and idx = ?idx and F = ?F])
      show "0 \<le> tid" "tid < B" "?C tid" using t C by blast+
    next
      fix j assume j: "tid < j" "j < B" "?C j"
      have "?cnt (base + tid) < ?cnt (base + j)"
        using p(1,3) j(1) t by (intro itm_count_strict) simp_all
      then show "?idx j \<noteq> ?idx tid" using idx [OF j(3)] idx [OF C] by simp
    qed
    then show ?thesis using idx [OF C] t(4) by simp
  qed
  have 4: "blk_smem_svds ?st' k = smem0 k" if k: "?cnt (min (base + B) n) \<le> k" for k
  proof -
    have "blk_smem_svds ?st' k = blk_smem_svds st k"
      unfolding smem'
    proof (rule for_threads_update_kept [where C = ?C and idx = ?idx and F = ?F])
      fix j assume j: "0 \<le> j" "j < B" "?C j"
      then have a: "base + j < n" "?itm (base + j) \<noteq> 0" using C_iff [of j] by auto
      have "?cnt (base + j) < ?cnt (min (base + B) n)"
        using a j(1,2) base(1) by (intro itm_count_strict) simp_all
      then show "?idx j \<noteq> k" using idx [OF j(3)] k by simp
    qed
    moreover have "?cnt base \<le> ?cnt (min (base + B) n)"
      using base B by (intro itm_count_mono) simp
    ultimately show ?thesis using rest [of k] k by simp
  qed
  show ?thesis
    unfolding svd_scan_inv_def
    using 1 2 3 4 by (simp add: add.assoc)
qed

lemma prepare_svd_loop_inv:
  assumes "0 < B" "0 \<le> base" "base mod B = 0"
    and "svd_scan_inv B n payoff paths offset smem0 base st"
  shows "\<exists>b. n \<le> b \<and> base \<le> b
           \<and> svd_scan_inv B n payoff paths offset smem0 b
                (prepare_svd_loop B n payoff paths offset base st)"
  using assms
proof (induction B n payoff paths offset base st rule: prepare_svd_loop.induct)
  case (1 B n payoff paths offset base st)
  show ?case
  proof (cases "base < n")
    case False
    then have e: "prepare_svd_loop B n payoff paths offset base st = st"
      by (subst prepare_svd_loop.simps) simp
    show ?thesis unfolding e
    proof (intro exI [of _ base] conjI)
      show "n \<le> base" using False by simp
      show "base \<le> base" by simp
      show "svd_scan_inv B n payoff paths offset smem0 base st" by (rule 1(5))
    qed
  next
    case True
    have unf: "prepare_svd_loop B n payoff paths offset base st
        = prepare_svd_loop B n payoff paths offset (base + B)
            (prepare_svd_iteration B n payoff paths offset base st)"
      using True 1(2) by (subst prepare_svd_loop.simps) simp
    have i: "svd_scan_inv B n payoff paths offset smem0 (base + B)
            (prepare_svd_iteration B n payoff paths offset base st)"
      by (rule svd_scan_inv_step [OF 1(2) 1(3) 1(4) True 1(5)])
    have c: "base < n \<and> 0 < B" using True 1(2) by simp
    have b0: "0 \<le> base + B" using 1(2,3) by simp
    have b1: "(base + B) mod B = 0" using 1(4) by simp
    from 1(1) [OF c 1(2) b0 b1 i]
    obtain b where b: "n \<le> b" "base + B \<le> b"
      "svd_scan_inv B n payoff paths offset smem0 b
         (prepare_svd_loop B n payoff paths offset (base + B)
            (prepare_svd_iteration B n payoff paths offset base st))"
      by (elim exE conjE)
    show ?thesis unfolding unf
    proof (intro exI [of _ b] conjI)
      show "n \<le> b" by (rule b(1))
      show "base \<le> b" using b(2) 1(2) by simp
      show "svd_scan_inv B n payoff paths offset smem0 b
         (prepare_svd_loop B n payoff paths offset (base + B)
            (prepare_svd_iteration B n payoff paths offset base st))" by (rule b(3))
    qed
  qed
qed

lemma cleared_smem_zero:
  assumes "12 \<le> B" "0 \<le> k" "k < 12"
  shows "cleared_smem B smem_svds0 k = 0"
  unfolding cleared_smem_def
  using for_threads_update_written [where C = "\<lambda>tid. tid < 12" and idx = "\<lambda>tid. tid"
      and F = "\<lambda>tid. 0" and k = k and n = B and ?s0.0 = smem_svds0] assms
  by simp

lemma prepare_svd_scan_inv:
  assumes "0 < B"
  shows "\<exists>b. n \<le> b \<and> svd_scan_inv B n payoff paths (blockIdx * n) (cleared_smem B smem_svds0) b
           (prepare_svd_scan B n payoff paths scan_input0 smem_svds0 blockIdx)"
proof -
  let ?st0 = "\<lparr> blk_scan_input = scan_input0,
            blk_smem_svds = cleared_smem B smem_svds0,
            thr_found_paths = (\<lambda>tid. 0),
            thr_m = (\<lambda>tid. 0),
            thr_sums_x = (\<lambda>tid. 0),
            thr_sums_y = (\<lambda>tid. 0),
            thr_sums_z = (\<lambda>tid. 0),
            thr_sums_w = (\<lambda>tid. 0) \<rparr>"
  have e: "{p \<in> {0..<min 0 n}. p mod B = tid} = {}" for tid by auto
  have c0: "itm_count payoff paths (blockIdx * n) 0 = 0" by (simp add: itm_count_def)
  have "svd_scan_inv B n payoff paths (blockIdx * n) (cleared_smem B smem_svds0) 0 ?st0"
    unfolding svd_scan_inv_def e by (simp add: c0)
  from prepare_svd_loop_inv [OF assms _ _ this]
  obtain b where "n \<le> b" "svd_scan_inv B n payoff paths (blockIdx * n) (cleared_smem B smem_svds0) b
      (prepare_svd_loop B n payoff paths (blockIdx * n) 0 ?st0)"
    by auto
  then show ?thesis
    unfolding prepare_svd_scan_def Let_def cleared_smem_def by (intro exI [of _ b]) simp
qed

lemma svd_scan_inv_acc:
  assumes "svd_scan_inv B n payoff paths offset smem0 b st" "n \<le> b" "0 \<le> tid" "tid < B"
  shows "thr_m st tid = (\<Sum>p\<in>{p \<in> {0..<n}. p mod B = tid}. itm_at payoff paths offset p)"
    and "thr_sums_x st tid = (\<Sum>p\<in>{p \<in> {0..<n}. p mod B = tid}. itm_price payoff paths offset p)"
    and "thr_sums_y st tid = (\<Sum>p\<in>{p \<in> {0..<n}. p mod B = tid}.
            itm_price payoff paths offset p * itm_price payoff paths offset p)"
    and "thr_sums_z st tid = (\<Sum>p\<in>{p \<in> {0..<n}. p mod B = tid}.
            itm_price payoff paths offset p * itm_price payoff paths offset p
              * itm_price payoff paths offset p)"
    and "thr_sums_w st tid = (\<Sum>p\<in>{p \<in> {0..<n}. p mod B = tid}.
            itm_price payoff paths offset p * itm_price payoff paths offset p
              * (itm_price payoff paths offset p * itm_price payoff paths offset p))"
proof -
  have m: "min b n = n" using assms(2) by simp
  from assms(1) have "\<forall>tid. 0 \<le> tid \<and> tid < B \<longrightarrow>
        thr_m st tid = (\<Sum>p\<in>{p \<in> {0..<n}. p mod B = tid}. itm_at payoff paths offset p)
      \<and> thr_sums_x st tid = (\<Sum>p\<in>{p \<in> {0..<n}. p mod B = tid}. itm_price payoff paths offset p)
      \<and> thr_sums_y st tid = (\<Sum>p\<in>{p \<in> {0..<n}. p mod B = tid}.
            itm_price payoff paths offset p * itm_price payoff paths offset p)
      \<and> thr_sums_z st tid = (\<Sum>p\<in>{p \<in> {0..<n}. p mod B = tid}.
            itm_price payoff paths offset p * itm_price payoff paths offset p
              * itm_price payoff paths offset p)
      \<and> thr_sums_w st tid = (\<Sum>p\<in>{p \<in> {0..<n}. p mod B = tid}.
            itm_price payoff paths offset p * itm_price payoff paths offset p
              * (itm_price payoff paths offset p * itm_price payoff paths offset p))"
    unfolding svd_scan_inv_def m by (rule conjunct1)
  then show "thr_m st tid = (\<Sum>p\<in>{p \<in> {0..<n}. p mod B = tid}. itm_at payoff paths offset p)"
    and "thr_sums_x st tid = (\<Sum>p\<in>{p \<in> {0..<n}. p mod B = tid}. itm_price payoff paths offset p)"
    and "thr_sums_y st tid = (\<Sum>p\<in>{p \<in> {0..<n}. p mod B = tid}.
            itm_price payoff paths offset p * itm_price payoff paths offset p)"
    and "thr_sums_z st tid = (\<Sum>p\<in>{p \<in> {0..<n}. p mod B = tid}.
            itm_price payoff paths offset p * itm_price payoff paths offset p
              * itm_price payoff paths offset p)"
    and "thr_sums_w st tid = (\<Sum>p\<in>{p \<in> {0..<n}. p mod B = tid}.
            itm_price payoff paths offset p * itm_price payoff paths offset p
              * (itm_price payoff paths offset p * itm_price payoff paths offset p))"
    using assms(3,4) by blast+
qed

lemma svd_scan_inv_seeds:
  assumes "svd_scan_inv B n payoff paths offset smem0 b st" "n \<le> b"
  shows "\<And>p. 0 \<le> p \<Longrightarrow> p < n \<Longrightarrow> itm_at payoff paths offset p \<noteq> 0
            \<Longrightarrow> itm_count payoff paths offset p < 3
            \<Longrightarrow> blk_smem_svds st (itm_count payoff paths offset p) = paths (offset + p)"
    and "\<And>k. itm_count payoff paths offset n \<le> k \<Longrightarrow> blk_smem_svds st k = smem0 k"
proof -
  have m: "min b n = n" using assms(2) by simp
  from assms(1) have a: "(\<forall>p. 0 \<le> p \<and> p < n \<and> itm_at payoff paths offset p \<noteq> 0
            \<and> itm_count payoff paths offset p < 3
        \<longrightarrow> blk_smem_svds st (itm_count payoff paths offset p) = paths (offset + p))
   \<and> (\<forall>k. itm_count payoff paths offset n \<le> k \<longrightarrow> blk_smem_svds st k = smem0 k)"
    unfolding svd_scan_inv_def m by (elim conjE) (rule conjI)
  show "\<And>p. 0 \<le> p \<Longrightarrow> p < n \<Longrightarrow> itm_at payoff paths offset p \<noteq> 0
            \<Longrightarrow> itm_count payoff paths offset p < 3
            \<Longrightarrow> blk_smem_svds st (itm_count payoff paths offset p) = paths (offset + p)"
    using a by blast
  show "\<And>k. itm_count payoff paths offset n \<le> k \<Longrightarrow> blk_smem_svds st k = smem0 k"
    using a by blast
qed

lemma sum_threads_of_chunks:
  fixes h :: "int \<Rightarrow> 'a::comm_monoid_add"
  assumes "0 < B"
  shows "(\<Sum>tid = 0..<B. \<Sum>p\<in>{p \<in> {0..<n}. p mod B = tid}. h p) = (\<Sum>p = 0..<n. h p)"
  using assms by (intro sum.group) auto

lemma prepare_svd_scan_sums:
  fixes B n blockIdx :: int and payoff :: payoff and paths smem_svds0 :: dmem
    and scan_input0 :: "int \<Rightarrow> int"
  assumes "0 < B"
  defines "st \<equiv> prepare_svd_scan B n payoff paths scan_input0 smem_svds0 blockIdx"
  shows "(\<Sum>tid = 0..<B. thr_m st tid) = itm_count payoff paths (blockIdx * n) n"
    and "(\<Sum>tid = 0..<B. thr_sums_x st tid) = (\<Sum>p = 0..<n. itm_price payoff paths (blockIdx * n) p)"
    and "(\<Sum>tid = 0..<B. thr_sums_y st tid)
           = (\<Sum>p = 0..<n. itm_price payoff paths (blockIdx * n) p * itm_price payoff paths (blockIdx * n) p)"
    and "(\<Sum>tid = 0..<B. thr_sums_z st tid)
           = (\<Sum>p = 0..<n. itm_price payoff paths (blockIdx * n) p * itm_price payoff paths (blockIdx * n) p
                 * itm_price payoff paths (blockIdx * n) p)"
    and "(\<Sum>tid = 0..<B. thr_sums_w st tid)
           = (\<Sum>p = 0..<n. itm_price payoff paths (blockIdx * n) p * itm_price payoff paths (blockIdx * n) p
                 * (itm_price payoff paths (blockIdx * n) p * itm_price payoff paths (blockIdx * n) p))"
proof -
  obtain b where b: "n \<le> b"
    and inv: "svd_scan_inv B n payoff paths (blockIdx * n) (cleared_smem B smem_svds0) b st"
    using prepare_svd_scan_inv [OF assms(1), of n payoff paths blockIdx smem_svds0 scan_input0]
    unfolding st_def by (elim exE conjE)
  note acc = svd_scan_inv_acc [OF inv b]
  have "(\<Sum>tid = 0..<B. thr_m st tid)
      = (\<Sum>tid = 0..<B. \<Sum>p\<in>{p \<in> {0..<n}. p mod B = tid}. itm_at payoff paths (blockIdx * n) p)"
    by (rule sum.cong [OF refl]) (use acc(1) in auto)
  then show "(\<Sum>tid = 0..<B. thr_m st tid) = itm_count payoff paths (blockIdx * n) n"
    unfolding itm_count_def by (simp only: sum_threads_of_chunks [OF assms(1)])
  have "(\<Sum>tid = 0..<B. thr_sums_x st tid)
      = (\<Sum>tid = 0..<B. \<Sum>p\<in>{p \<in> {0..<n}. p mod B = tid}. itm_price payoff paths (blockIdx * n) p)"
    by (rule sum.cong [OF refl]) (use acc(2) in auto)
  then show "(\<Sum>tid = 0..<B. thr_sums_x st tid) = (\<Sum>p = 0..<n. itm_price payoff paths (blockIdx * n) p)"
    by (simp only: sum_threads_of_chunks [OF assms(1)])
  have "(\<Sum>tid = 0..<B. thr_sums_y st tid)
      = (\<Sum>tid = 0..<B. \<Sum>p\<in>{p \<in> {0..<n}. p mod B = tid}.
            itm_price payoff paths (blockIdx * n) p * itm_price payoff paths (blockIdx * n) p)"
    by (rule sum.cong [OF refl]) (use acc(3) in auto)
  then show "(\<Sum>tid = 0..<B. thr_sums_y st tid)
           = (\<Sum>p = 0..<n. itm_price payoff paths (blockIdx * n) p * itm_price payoff paths (blockIdx * n) p)"
    by (simp only: sum_threads_of_chunks [OF assms(1)])
  have "(\<Sum>tid = 0..<B. thr_sums_z st tid)
      = (\<Sum>tid = 0..<B. \<Sum>p\<in>{p \<in> {0..<n}. p mod B = tid}.
            itm_price payoff paths (blockIdx * n) p * itm_price payoff paths (blockIdx * n) p
              * itm_price payoff paths (blockIdx * n) p)"
    by (rule sum.cong [OF refl]) (use acc(4) in auto)
  then show "(\<Sum>tid = 0..<B. thr_sums_z st tid)
           = (\<Sum>p = 0..<n. itm_price payoff paths (blockIdx * n) p * itm_price payoff paths (blockIdx * n) p
                 * itm_price payoff paths (blockIdx * n) p)"
    by (simp only: sum_threads_of_chunks [OF assms(1)])
  have "(\<Sum>tid = 0..<B. thr_sums_w st tid)
      = (\<Sum>tid = 0..<B. \<Sum>p\<in>{p \<in> {0..<n}. p mod B = tid}.
            itm_price payoff paths (blockIdx * n) p * itm_price payoff paths (blockIdx * n) p
              * (itm_price payoff paths (blockIdx * n) p * itm_price payoff paths (blockIdx * n) p))"
    by (rule sum.cong [OF refl]) (use acc(5) in auto)
  then show "(\<Sum>tid = 0..<B. thr_sums_w st tid)
           = (\<Sum>p = 0..<n. itm_price payoff paths (blockIdx * n) p * itm_price payoff paths (blockIdx * n) p
                 * (itm_price payoff paths (blockIdx * n) p * itm_price payoff paths (blockIdx * n) p))"
    by (simp only: sum_threads_of_chunks [OF assms(1)])
qed

lemma prepare_svd_scan_seeds:
  fixes B n blockIdx :: int and payoff :: payoff and paths smem_svds0 :: dmem
    and scan_input0 :: "int \<Rightarrow> int"
  assumes "0 < B"
  defines "st \<equiv> prepare_svd_scan B n payoff paths scan_input0 smem_svds0 blockIdx"
  shows "\<And>p. 0 \<le> p \<Longrightarrow> p < n \<Longrightarrow> itm_at payoff paths (blockIdx * n) p \<noteq> 0
            \<Longrightarrow> itm_count payoff paths (blockIdx * n) p < 3
            \<Longrightarrow> blk_smem_svds st (itm_count payoff paths (blockIdx * n) p) = paths (blockIdx * n + p)"
    and "\<And>k. itm_count payoff paths (blockIdx * n) n \<le> k
            \<Longrightarrow> blk_smem_svds st k = cleared_smem B smem_svds0 k"
proof -
  obtain b where b: "n \<le> b"
    and inv: "svd_scan_inv B n payoff paths (blockIdx * n) (cleared_smem B smem_svds0) b st"
    using prepare_svd_scan_inv [OF assms(1), of n payoff paths blockIdx smem_svds0 scan_input0]
    unfolding st_def by (elim exE conjE)
  show "\<And>p. 0 \<le> p \<Longrightarrow> p < n \<Longrightarrow> itm_at payoff paths (blockIdx * n) p \<noteq> 0
            \<Longrightarrow> itm_count payoff paths (blockIdx * n) p < 3
            \<Longrightarrow> blk_smem_svds st (itm_count payoff paths (blockIdx * n) p) = paths (blockIdx * n + p)"
    by (rule svd_scan_inv_seeds(1) [OF inv b])
  show "\<And>k. itm_count payoff paths (blockIdx * n) n \<le> k
            \<Longrightarrow> blk_smem_svds st k = cleared_smem B smem_svds0 k"
    by (rule svd_scan_inv_seeds(2) [OF inv b])
qed

lemma itm_paths_nth:
  assumes "0 \<le> n"
  shows "int (length (itm_paths payoff paths offset n)) = itm_count payoff paths offset n
       \<and> (\<forall>k < length (itm_paths payoff paths offset n).
            0 \<le> itm_paths payoff paths offset n ! k \<and> itm_paths payoff paths offset n ! k < n
          \<and> itm_at payoff paths offset (itm_paths payoff paths offset n ! k) \<noteq> 0
          \<and> itm_count payoff paths offset (itm_paths payoff paths offset n ! k) = int k)"
  using assms
proof (induction n rule: int_ge_induct)
  case base
  then show ?case by (simp add: itm_paths_def itm_count_def)
next
  case (step i)
  let ?P = "\<lambda>p. is_in_the_money payoff (paths (offset + p)) \<noteq> 0"
  let ?xs = "itm_paths payoff paths offset i"
  have up: "[0..i] = [0..i - 1] @ [i]" using step(1) upto_rec2 [of 0 i] by simp
  have "itm_paths payoff paths offset (i + 1) = filter ?P [0..i]"
    by (simp add: itm_paths_def)
  also have "\<dots> = ?xs @ (if ?P i then [i] else [])"
    by (subst up) (simp add: itm_paths_def)
  finally have xs': "itm_paths payoff paths offset (i + 1) = ?xs @ (if ?P i then [i] else [])" .
  have len: "int (length ?xs) = itm_count payoff paths offset i" using step by blast
  have nth: "\<And>k. k < length ?xs \<Longrightarrow> 0 \<le> ?xs ! k \<and> ?xs ! k < i
          \<and> itm_at payoff paths offset (?xs ! k) \<noteq> 0
          \<and> itm_count payoff paths offset (?xs ! k) = int k" using step by blast
  have i01: "itm_at payoff paths offset i = (if ?P i then 1 else 0)"
    using itm_at_01 [of payoff paths offset i] by (auto simp: itm_at_def)
  have len': "int (length (itm_paths payoff paths offset (i + 1))) = itm_count payoff paths offset (i + 1)"
    using step(1) len by (simp add: xs' itm_count_Suc i01)
  have nth': "0 \<le> itm_paths payoff paths offset (i + 1) ! k \<and> itm_paths payoff paths offset (i + 1) ! k < i + 1
          \<and> itm_at payoff paths offset (itm_paths payoff paths offset (i + 1) ! k) \<noteq> 0
          \<and> itm_count payoff paths offset (itm_paths payoff paths offset (i + 1) ! k) = int k"
    if k: "k < length (itm_paths payoff paths offset (i + 1))" for k
  proof (cases "k < length ?xs")
    case True
    have "itm_paths payoff paths offset (i + 1) ! k = ?xs ! k"
      unfolding xs' using True by (rule nth_append_left)
    then show ?thesis using nth [OF True] by simp
  next
    case False
    have P: "?P i"
    proof (rule ccontr)
      assume "\<not> ?P i"
      then have "itm_paths payoff paths offset (i + 1) = ?xs" unfolding xs' by simp
      then show False using k False by simp
    qed
    then have eq: "itm_paths payoff paths offset (i + 1) = ?xs @ [i]" unfolding xs' by simp
    then have kl: "k = length ?xs" using k False by simp
    have "itm_paths payoff paths offset (i + 1) ! k = i"
      unfolding eq kl by simp
    then show ?thesis using step(1) len P kl by (simp add: itm_at_def)
  qed
  show ?case using len' nth' by blast
qed

subsection \<open>Flagged timesteps\<close>

lemma for_threads_idle:
  assumes "\<And>k s. 0 \<le> k \<Longrightarrow> k < n \<Longrightarrow> thread k s = s"
  shows "for_threads n thread s = s"
proof (cases "0 \<le> n")
  case False
  then show ?thesis by (simp add: for_threads_nonpos)
next
  case True
  have "\<forall>m. 0 \<le> m \<and> m \<le> n \<longrightarrow> for_threads m thread s = s"
  proof (intro allI impI)
    fix m assume "0 \<le> m \<and> m \<le> n"
    then have "0 \<le> m" "m \<le> n" by auto
    then show "for_threads m thread s = s"
    proof (induction m rule: int_ge_induct)
      case base
      then show ?case by (simp add: for_threads_nonpos)
    next
      case (step i)
      then show ?case using assms [of i s] by (simp add: for_threads_step)
    qed
  qed
  then show ?thesis using True by simp
qed

lemma itm_count_card:
  "itm_count payoff paths offset n
     = int (card {p \<in> {0..<n}. is_in_the_money payoff (paths (offset + p)) \<noteq> 0})"
proof -
  have "itm_count payoff paths offset n
      = (\<Sum>p = 0..<n. if is_in_the_money payoff (paths (offset + p)) \<noteq> 0 then 1 else 0)"
    unfolding itm_count_def
    by (intro sum.cong refl) (use itm_at_01 in \<open>auto simp: itm_at_def\<close>)
  also have "\<dots> = int (card {p \<in> {0..<n}. is_in_the_money payoff (paths (offset + p)) \<noteq> 0})"
    by (simp add: sum.If_cases Int_def)
  finally show ?thesis .
qed

text \<open>The flag of a timestep after its block of \<open>prepare_svd_kernel\<close>.\<close>

lemma prepare_svd_block_flags:
  assumes "0 < B"
  shows "fst (prepare_svd_block B n min_itm payoff paths scan_input0 smem_svds0 b (flags, svds))
     = (if itm_count payoff paths (b * n) n < min_itm then flags(b := 1) else flags)"
  unfolding prepare_svd_block_def Let_def prepare_svd_scan_sums(1) [OF assms]
  by (simp add: split_def)

lemma prepare_svd_kernel_flags:
  assumes "0 < B"
  shows "fst (prepare_svd_kernel gridDim B n min_itm payoff paths scan_input0 smem_svds0 (flags, svds)) t
     = (if 0 \<le> t \<and> t < gridDim \<and> itm_count payoff paths (t * n) n < min_itm then 1 else flags t)"
proof (cases "0 \<le> gridDim")
  case False
  then show ?thesis by (simp add: prepare_svd_kernel_def for_threads_nonpos)
next
  case True
  let ?blk = "prepare_svd_block B n min_itm payoff paths scan_input0 smem_svds0"
  have "\<forall>k. 0 \<le> k \<and> k \<le> gridDim \<longrightarrow>
      (\<forall>t. fst (for_threads k ?blk (flags, svds)) t
         = (if 0 \<le> t \<and> t < k \<and> itm_count payoff paths (t * n) n < min_itm then 1 else flags t))"
  proof (intro allI impI)
    fix k t assume "0 \<le> k \<and> k \<le> gridDim"
    then have "0 \<le> k" "k \<le> gridDim" by auto
    then show "fst (for_threads k ?blk (flags, svds)) t
         = (if 0 \<le> t \<and> t < k \<and> itm_count payoff paths (t * n) n < min_itm then 1 else flags t)"
    proof (induction k arbitrary: t rule: int_ge_induct)
      case base
      then show ?case by (simp add: for_threads_nonpos)
    next
      case (step i)
      obtain f s where fs: "for_threads i ?blk (flags, svds) = (f, s)" by (cases "for_threads i ?blk (flags, svds)")
      have f: "f t = (if 0 \<le> t \<and> t < i \<and> itm_count payoff paths (t * n) n < min_itm then 1 else flags t)" for t
        using step(2) [of t] step(3) by (simp add: fs)
      have "fst (for_threads (i + 1) ?blk (flags, svds)) = fst (?blk i (f, s))"
        using step(1) by (simp add: for_threads_step fs)
      also have "\<dots> = (if itm_count payoff paths (i * n) n < min_itm then f(i := 1) else f)"
        by (rule prepare_svd_block_flags [OF assms])
      finally show ?case using step(1) by (auto simp add: f)
    qed
  qed
  then show ?thesis using True by (simp add: prepare_svd_kernel_def)
qed

lemma compute_partial_beta_kernel_flagged:
  assumes "flags flag \<noteq> 0"
  shows "compute_partial_beta_kernel gridDim B n payoff d_svds svd d_paths paths cashflows flags flag
           partial_sums = partial_sums"
  unfolding compute_partial_beta_kernel_def
  by (rule for_threads_idle) (simp add: compute_partial_beta_block_def assms)

lemma compute_final_beta_kernel_flagged:
  assumes "flags flag \<noteq> 0" "3 \<le> B" "0 \<le> k" "k < 3"
  shows "compute_final_beta_kernel B flags flag beta k = 0"
proof -
  have "for_threads B (\<lambda>tid beta. if tid < 3 then beta(tid := 0) else beta) beta k = 0"
    using for_threads_update_written [where C = "\<lambda>tid. tid < 3" and idx = "\<lambda>tid. tid"
        and F = "\<lambda>tid. 0" and k = k and n = B and ?s0.0 = beta] assms
    by simp
  then show ?thesis using assms(1) by (simp add: compute_final_beta_kernel_def)
qed

lemma launch_ok: "1 \<le> gridDim \<Longrightarrow> launch gridDim result = Inr result"
  by (simp add: launch_def)

lemma CHECK_CUDA_Inr [simp]: "CHECK_CUDA (Inr v) continue = continue v"
  by (simp add: CHECK_CUDA_def)

lemma CHECK_CUDA_Inl [simp]: "CHECK_CUDA (Inl e) continue = Inl e"
  by (simp add: CHECK_CUDA_def)

text \<open>One timestep of the main loop, with the launches unfolded.\<close>

lemma lsm_timestep_eq:
  assumes "1 \<le> update_cashflow_grid"
  shows "lsm_timestep n payoff e update_cashflow_grid d_svds flags d_cashflows t (mem, temp)
     = (let beta = compute_final_beta_kernel 128 flags t
                     (compute_partial_beta_kernel 128 128 n payoff d_svds (16 * t) mem (t * n)
                        d_cashflows flags t temp)
        in Inr (update_cashflow_kernel update_cashflow_grid 128 n payoff e beta (t * n) flags t
                  d_cashflows mem, beta))"
  using assms by (simp add: lsm_timestep_def Let_def launch_ok)

lemma lsm_timestep_flagged:
  assumes "1 \<le> update_cashflow_grid" and "flags t \<noteq> 0"
    and "t * n + n \<le> d_cashflows \<or> d_cashflows + n \<le> t * n"
  shows "\<exists>mem' beta. lsm_timestep n payoff e update_cashflow_grid d_svds flags d_cashflows t (mem, temp)
              = Inr (mem', beta)
           \<and> beta 0 = 0 \<and> beta 1 = 0 \<and> beta 2 = 0
           \<and> mem' = (\<lambda>q. if 0 \<le> q - d_cashflows \<and> q - d_cashflows < n then e * mem q else mem q)"
proof -
  let ?beta = "compute_final_beta_kernel 128 flags t
                     (compute_partial_beta_kernel 128 128 n payoff d_svds (16 * t) mem (t * n)
                        d_cashflows flags t temp)"
  have G: "0 < update_cashflow_grid * 128" using assms(1) by simp
  have b: "?beta 0 = 0" "?beta 1 = 0" "?beta 2 = 0"
    using assms(2) by (simp_all add: compute_final_beta_kernel_flagged)
  have "update_cashflow_kernel update_cashflow_grid 128 n payoff e ?beta (t * n) flags t d_cashflows mem
      = (\<lambda>q. if 0 \<le> q - d_cashflows \<and> q - d_cashflows < n then e * mem q else mem q)"
    unfolding update_cashflow_kernel_spec [OF G assms(3)]
    using assms(2) by (intro ext) (simp add: updated_cashflow_def)
  then show ?thesis
    unfolding lsm_timestep_eq [OF assms(1)] Let_def using b by simp
qed

subsection \<open>Regression Builder: the seeds\<close>

lemma itm_paths_increasing:
  assumes "0 \<le> n" "j < k" "k < length (itm_paths payoff paths offset n)"
  shows "itm_paths payoff paths offset n ! j < itm_paths payoff paths offset n ! k"
proof (rule ccontr)
  let ?ps = "itm_paths payoff paths offset n"
  assume "\<not> ?ps ! j < ?ps ! k"
  then have "itm_count payoff paths offset (?ps ! k) \<le> itm_count payoff paths offset (?ps ! j)"
    by (intro itm_count_mono) simp
  moreover have "itm_count payoff paths offset (?ps ! k) = int k"
    "itm_count payoff paths offset (?ps ! j) = int j"
    using itm_paths_nth [OF assms(1), of payoff paths offset] assms(2,3) by auto
  ultimately show False using assms(2) by simp
qed

lemma prepare_svd_scan_seed:
  assumes "0 < B" "0 \<le> n" "k < 3" "k < length (itm_paths payoff paths (t * n) n)"
  shows "blk_smem_svds (prepare_svd_scan B n payoff paths scan_input0 smem_svds0 t) (int k)
     = paths (t * n + itm_paths payoff paths (t * n) n ! k)"
proof -
  let ?p = "itm_paths payoff paths (t * n) n ! k"
  have p: "0 \<le> ?p" "?p < n" "itm_at payoff paths (t * n) ?p \<noteq> 0"
    "itm_count payoff paths (t * n) ?p = int k"
    using itm_paths_nth [OF assms(2), of payoff paths "t * n"] assms(4) by auto
  have "itm_count payoff paths (t * n) ?p < 3" using p(4) assms(3) by simp
  from prepare_svd_scan_seeds(1) [OF assms(1) p(1,2,3) this, of scan_input0 smem_svds0]
  show ?thesis by (simp only: p(4))
qed

subsection \<open>Backward Induction Driver\<close>

lemma sdiv_nonneg: "0 \<le> a \<Longrightarrow> 0 < b \<Longrightarrow> a sdiv b = a div b" for a b :: int
  by (simp add: signed_divide_int_def sgn_if)

lemma grid_covers:
  fixes n B :: int
  assumes "1 \<le> n" "0 < B"
  shows "1 \<le> (n + B - 1) sdiv B" and "n \<le> (n + B - 1) sdiv B * B"
proof -
  have e: "(n + B - 1) sdiv B = (n + B - 1) div B" using assms by (intro sdiv_nonneg) simp_all
  have "B \<le> n + B - 1" using assms by simp
  then have "B div B \<le> (n + B - 1) div B" by (rule zdiv_mono1) (use assms in simp)
  then show "1 \<le> (n + B - 1) sdiv B" using assms e by simp
  have "n + B - 1 = (n + B - 1) div B * B + (n + B - 1) mod B" by simp
  moreover have "(n + B - 1) mod B \<le> B - 1" using assms
    by (smt (verit) pos_mod_bound)
  ultimately show "n \<le> (n + B - 1) sdiv B * B" unfolding e by linarith
qed

lemma update_cashflow_grid_of_pos:
  assumes "1 \<le> n"
  shows "1 \<le> update_cashflow_grid_of n"
proof -
  have g: "1 \<le> (n + 128 - 1) sdiv 128" using grid_covers(1) [OF assms, of 128] by simp
  have m: "1 \<le> max 1 w * (256 * 112) sdiv 128" for w :: int
  proof -
    have "0 \<le> max 1 w * (256 * 112)" by simp
    then have "max 1 w * (256 * 112) sdiv 128 = max 1 w * (256 * 112) div 128"
      by (intro sdiv_nonneg) simp_all
    also have "\<dots> = max 1 w * 224" by simp
    finally show ?thesis by simp
  qed
  show ?thesis
    unfolding update_cashflow_grid_of_def Let_def using g m by (simp split: if_splits)
qed

lemma price_reducer_value:
  assumes "0 < B" and "0 \<le> gridDim" and "n \<le> gridDim * B"
  shows "compute_final_sum_kernel B n gridDim e
           (compute_partial_sums_kernel gridDim B n d_paths cashflows sums') 0
       = e * (\<Sum>path = 0..<n. d_paths (cashflows + path)) / real_of_int n"
proof -
  let ?f = "\<lambda>g. if g < n then d_paths (cashflows + g) else 0"
  have "(\<Sum>b = 0..<gridDim. compute_partial_sums_kernel gridDim B n d_paths cashflows sums' b)
      = (\<Sum>b = 0..<gridDim. \<Sum>tid = 0..<B. ?f (b * B + tid))"
    by (intro sum.cong) (simp_all add: compute_partial_sums_kernel_spec)
  also have "\<dots> = (\<Sum>g = 0..<gridDim * B. ?f g)"
    using assms by (intro sum_blocks_threads) simp_all
  also have "\<dots> = (\<Sum>g = 0..<n. ?f g)"
    using assms(3) by (intro sum_zero_tail) simp_all
  also have "\<dots> = (\<Sum>path = 0..<n. d_paths (cashflows + path))"
    by (intro sum.cong) simp_all
  finally show ?thesis
    using assms(1) by (simp add: compute_final_sum_kernel_spec)
qed

text \<open>\<open>do_run\<close> with its launches unfolded, for at least one path and two timesteps.\<close>

lemma do_run_eq:
  assumes "1 \<le> n" "2 \<le> T"
  shows "do_run h_samples T n payoff dt S0 r sigma d_samples d_paths d_cashflows d_svds flags temp
           scan_input0 smem_svds0
     = (let mem1 = generate_paths_kernel ((n + 256 - 1) sdiv 256) 256 T n payoff dt S0 r sigma
                     (cudaMemcpy d_samples h_samples (T * n)) d_paths;
            fs = prepare_svd_kernel (T - 1) 256 n 4 payoff mem1 scan_input0 smem_svds0
                   (cudaMemset flags 0 T, d_svds)
        in CHECK_CUDA (backward_induction n payoff (exp (- r * dt)) (update_cashflow_grid_of n)
                         (snd fs) (fst fs) d_cashflows (T - 2) (mem1, temp))
             (\<lambda>(mem2, temp2).
                Inr (exp (- r * dt) * (\<Sum>path = 0..<n. mem2 (d_cashflows + path)) / real_of_int n)))"
proof -
  have g0: "1 \<le> (n + 256 - 1) sdiv 256" using grid_covers(1) [OF assms(1), of 256] by simp
  have g4: "1 \<le> (n + 128 - 1) sdiv 128" "n \<le> (n + 128 - 1) sdiv 128 * 128"
    using grid_covers [OF assms(1), of 128] by simp_all
  have T1: "1 \<le> T - 1" using assms(2) by simp
  have pr: "compute_final_sum_kernel 128 n ((n + 128 - 1) sdiv 128) e
           (compute_partial_sums_kernel ((n + 128 - 1) sdiv 128) 128 n mem2 d_cashflows temp2) 0
       = e * (\<Sum>path = 0..<n. mem2 (d_cashflows + path)) / real_of_int n" for e mem2 temp2
    using g4 by (intro price_reducer_value) simp_all
  show ?thesis
    unfolding do_run_def Let_def
    by (simp only: launch_ok [OF g0] launch_ok [OF T1] launch_ok [OF g4(1)] launch_ok [of 1]
          CHECK_CUDA_Inr split_def pr order_refl fst_conv snd_conv prod.collapse)
qed

text \<open>The main loop establishes what every pass through its body maintains.\<close>

lemma backward_induction_rule:
  assumes "- 1 \<le> t0" and "t0 \<le> tmax" and "J t0 st"
    and step: "\<And>t st. 0 \<le> t \<Longrightarrow> t \<le> tmax \<Longrightarrow> J t st
           \<Longrightarrow> \<exists>st'. lsm_timestep n payoff e G d_svds flags d_cashflows t st = Inr st' \<and> J (t - 1) st'"
  shows "\<exists>st'. backward_induction n payoff e G d_svds flags d_cashflows t0 st = Inr st' \<and> J (- 1) st'"
  using assms(1,2,3)
proof (induction "nat (t0 + 1)" arbitrary: t0 st)
  case 0
  then have "t0 = - 1" by simp
  then show ?case using 0 by (subst backward_induction.simps) simp
next
  case (Suc k)
  then have t: "0 \<le> t0" by simp
  obtain st' where st': "lsm_timestep n payoff e G d_svds flags d_cashflows t0 st = Inr st'"
    "J (t0 - 1) st'"
    using step [OF t Suc.prems(2,3)] by blast
  have k: "k = nat (t0 - 1 + 1)" using Suc.hyps(2) by simp
  have "\<exists>st''. backward_induction n payoff e G d_svds flags d_cashflows (t0 - 1) st' = Inr st''
          \<and> J (- 1) st''"
    using Suc.hyps(1) [OF k _ _ st'(2)] t Suc.prems(2) by simp
  then show ?case
    using t by (subst backward_induction.simps) (simp add: st'(1))
qed

lemma gbm_price_samples_cong:
  assumes "\<And>j. j < k \<Longrightarrow> samples (int j * n + p) = samples' (int j * n + p)"
  shows "gbm_price S0 r sigma dt samples n p k = gbm_price S0 r sigma dt samples' n p k"
  using assms by (induction k) simp_all

lemma gbm_price_cudaMemcpy:
  assumes "0 \<le> p" "p < n" "int k \<le> T"
  shows "gbm_price S0 r sigma dt (cudaMemcpy d_samples h_samples (T * n)) n p k
       = gbm_price S0 r sigma dt h_samples n p k"
proof (rule gbm_price_samples_cong)
  fix j assume j: "j < k"
  have "int j + 1 \<le> T" using j assms(3) by simp
  then have "(int j + 1) * n \<le> T * n" using assms(1,2) by (intro mult_right_mono) simp_all
  then have "int j * n + p < T * n" using assms(2) by (simp add: algebra_simps)
  moreover have "0 \<le> int j * n + p" using assms(1,2) by simp
  ultimately show "cudaMemcpy d_samples h_samples (T * n) (int j * n + p) = h_samples (int j * n + p)"
    by (simp add: cudaMemcpy_def)
qed

text \<open>The last row of \<open>d_paths\<close> after the Path Generator, as launched by \<open>do_run\<close>.\<close>

lemma generated_terminal_payoff:
  assumes "1 \<le> n" "1 \<le> T" "0 \<le> p" "p < n"
  shows "generate_paths_kernel ((n + 256 - 1) sdiv 256) 256 T n payoff dt S0 r sigma
           (cudaMemcpy d_samples h_samples (T * n)) d_paths ((T - 1) * n + p)
       = payoff_value payoff (gbm_price S0 r sigma dt h_samples n p (nat T))"
proof -
  let ?g = "(n + 256 - 1) sdiv 256"
  have g: "0 \<le> ?g * 256" "n \<le> ?g * 256" using grid_covers [OF assms(1), of 256] by simp_all
  have "paths_generated T n payoff dt S0 r sigma (cudaMemcpy d_samples h_samples (T * n)) d_paths
          (?g * 256)
          (generate_paths_kernel ?g 256 T n payoff dt S0 r sigma
             (cudaMemcpy d_samples h_samples (T * n)) d_paths)"
    unfolding generate_paths_kernel_def
    by (rule generate_paths_kernel_spec [OF assms(2) g(1)])
  then have "generate_paths_kernel ?g 256 T n payoff dt S0 r sigma
           (cudaMemcpy d_samples h_samples (T * n)) d_paths ((T - 1) * n + p)
       = payoff_value payoff (gbm_price S0 r sigma dt (cudaMemcpy d_samples h_samples (T * n)) n p (nat T))"
    unfolding paths_generated_def using assms(3,4) g(2) by (smt (verit, best))
  then show ?thesis using assms by (simp add: gbm_price_cudaMemcpy)
qed

lemma payoff_value_nonneg: "0 \<le> payoff_value payoff S"
  by (cases payoff) simp_all

lemma updated_cashflow_nonneg:
  assumes "0 \<le> e" "0 \<le> cashflow"
  shows "0 \<le> updated_cashflow payoff e b0 b1 b2 skip S cashflow"
  using assms by (simp add: updated_cashflow_def payoff_value_nonneg)

lemma lsm_timestep_nonneg:
  assumes "1 \<le> G" "0 \<le> e" "t * n + n \<le> d_cashflows"
    and "\<And>p. 0 \<le> p \<Longrightarrow> p < n \<Longrightarrow> 0 \<le> mem (d_cashflows + p)"
  shows "\<exists>mem' temp'. lsm_timestep n payoff e G d_svds flags d_cashflows t (mem, temp) = Inr (mem', temp')
           \<and> (\<forall>p. 0 \<le> p \<and> p < n \<longrightarrow> 0 \<le> mem' (d_cashflows + p))"
proof -
  have G: "0 < G * 128" using assms(1) by simp
  have dj: "t * n + n \<le> d_cashflows \<or> d_cashflows + n \<le> t * n" using assms(3) by simp
  show ?thesis
    unfolding lsm_timestep_eq [OF assms(1)] Let_def update_cashflow_kernel_spec [OF G dj]
    using assms(2,4) by (simp add: updated_cashflow_nonneg)
qed

text \<open>With fewer than 4 paths every timestep is flagged and the loop only discounts.\<close>

lemma few_paths_flags:
  assumes "n < 4" "0 \<le> t" "t < gridDim"
  shows "fst (prepare_svd_kernel gridDim 256 n 4 payoff paths scan_input0 smem_svds0 (flags, svds)) t = 1"
proof -
  have "itm_count payoff paths (t * n) n < 4"
    using itm_count_upper [of payoff paths "t * n" n] assms(1) by simp
  then show ?thesis using assms(2,3) by (simp add: prepare_svd_kernel_flags)
qed

lemma do_run_few_paths:
  assumes n: "1 \<le> n" "n < 4" and T: "2 \<le> T" and c: "d_cashflows = (T - 1) * n"
  shows "do_run h_samples T n payoff dt S0 r sigma d_samples d_paths d_cashflows d_svds flags temp
           scan_input0 smem_svds0
     = Inr (exp (- r * dt * real_of_int T)
            * (\<Sum>p = 0..<n. payoff_value payoff (gbm_price S0 r sigma dt h_samples n p (nat T)))
            / real_of_int n)"
proof -
  define e where "e = exp (- r * dt)"
  define mem1 where "mem1 = generate_paths_kernel ((n + 256 - 1) sdiv 256) 256 T n payoff dt S0 r sigma
                     (cudaMemcpy d_samples h_samples (T * n)) d_paths"
  define fs where "fs = prepare_svd_kernel (T - 1) 256 n 4 payoff mem1 scan_input0 smem_svds0
                   (cudaMemset flags 0 T, d_svds)"
  define J where "J = (\<lambda>t (st :: dmem \<times> dmem). fst st
      = (\<lambda>q. if 0 \<le> q - d_cashflows \<and> q - d_cashflows < n
             then e ^ nat (T - 2 - t) * mem1 q else mem1 q))"
  have G: "1 \<le> update_cashflow_grid_of n" by (rule update_cashflow_grid_of_pos [OF n(1)])
  have J0: "J (T - 2) (mem1, temp)" by (simp add: J_def fun_eq_iff)
  have step: "\<exists>st'. lsm_timestep n payoff e (update_cashflow_grid_of n) (snd fs) (fst fs)
                      d_cashflows t st = Inr st' \<and> J (t - 1) st'"
    if t: "0 \<le> t" "t \<le> T - 2" and Jt: "J t st" for t st
  proof -
    obtain mem tmp where st: "st = (mem, tmp)" by (cases st)
    have fl: "fst fs t \<noteq> 0"
      unfolding fs_def using few_paths_flags [OF n(2) t(1), of "T - 1"] t(2) by simp
    have "(t + 1) * n \<le> (T - 1) * n" using t(2) n(1) by (intro mult_right_mono) simp_all
    then have dj: "t * n + n \<le> d_cashflows \<or> d_cashflows + n \<le> t * n"
      unfolding c by (simp add: algebra_simps)
    from lsm_timestep_flagged [where flags = "fst fs" and t = t and payoff = payoff and e = e
        and d_svds = "snd fs" and mem = mem and temp = tmp, OF G fl dj]
    obtain mem' beta where r:
      "lsm_timestep n payoff e (update_cashflow_grid_of n) (snd fs) (fst fs) d_cashflows t (mem, tmp)
          = Inr (mem', beta)"
      "mem' = (\<lambda>q. if 0 \<le> q - d_cashflows \<and> q - d_cashflows < n then e * mem q else mem q)"
      by blast
    have m: "mem = (\<lambda>q. if 0 \<le> q - d_cashflows \<and> q - d_cashflows < n
             then e ^ nat (T - 2 - t) * mem1 q else mem1 q)"
      using Jt by (simp add: J_def st)
    have "nat (T - 2 - (t - 1)) = Suc (nat (T - 2 - t))" using t by simp
    then have "J (t - 1) (mem', beta)"
      unfolding J_def r(2) m by (auto simp add: fun_eq_iff)
    then show ?thesis using r(1) st by blast
  qed
  have "- 1 \<le> T - 2" "T - 2 \<le> T - 2" using T by simp_all
  from backward_induction_rule [where J = J, OF this J0 step]
  obtain mem2 temp2 where b:
    "backward_induction n payoff e (update_cashflow_grid_of n) (snd fs) (fst fs) d_cashflows
        (T - 2) (mem1, temp) = Inr (mem2, temp2)"
    "J (- 1) (mem2, temp2)"
    by (metis surj_pair)
  have m2: "mem2 (d_cashflows + p) = e ^ nat (T - 1) * mem1 (d_cashflows + p)"
    if "0 \<le> p" "p < n" for p
  proof -
    have "T - 2 - - 1 = T - 1" by simp
    then show ?thesis using b(2) that by (simp add: J_def)
  qed
  have m1: "mem1 (d_cashflows + p) = payoff_value payoff (gbm_price S0 r sigma dt h_samples n p (nat T))"
    if "0 \<le> p" "p < n" for p
    unfolding mem1_def c using generated_terminal_payoff [OF n(1) _ that] T by simp
  have "(\<Sum>p = 0..<n. mem2 (d_cashflows + p))
      = (\<Sum>p = 0..<n. e ^ nat (T - 1) * payoff_value payoff (gbm_price S0 r sigma dt h_samples n p (nat T)))"
    by (intro sum.cong refl) (simp add: m2 m1)
  also have "\<dots> = e ^ nat (T - 1)
      * (\<Sum>p = 0..<n. payoff_value payoff (gbm_price S0 r sigma dt h_samples n p (nat T)))"
    by (simp add: sum_distrib_left)
  finally have sum2: "(\<Sum>p = 0..<n. mem2 (d_cashflows + p)) = e ^ nat (T - 1)
      * (\<Sum>p = 0..<n. payoff_value payoff (gbm_price S0 r sigma dt h_samples n p (nat T)))" .
  have "nat T = Suc (nat (T - 1))" using T by simp
  then have "e * e ^ nat (T - 1) = e ^ nat T" by simp
  also have "\<dots> = exp (real (nat T) * (- r * dt))" unfolding e_def by (rule exp_of_nat_mult [symmetric])
  also have "\<dots> = exp (- r * dt * real_of_int T)" using T by (simp add: mult.commute)
  finally have eT: "e * e ^ nat (T - 1) = exp (- r * dt * real_of_int T)" .
  have "e * (e ^ nat (T - 1) * S) = exp (- r * dt * real_of_int T) * S" for S
    using eT by (simp add: mult.assoc [symmetric])
  then show ?thesis
    unfolding do_run_eq [OF n(1) T] Let_def mem1_def [symmetric] fs_def [symmetric] e_def [symmetric]
    by (simp add: b(1) sum2)
qed

lemma do_run_nonneg:
  assumes n: "1 \<le> n" and T: "2 \<le> T" and c: "d_cashflows = (T - 1) * n"
  shows "\<exists>price. do_run h_samples T n payoff dt S0 r sigma d_samples d_paths d_cashflows d_svds
                     flags temp scan_input0 smem_svds0 = Inr price \<and> 0 \<le> price"
proof -
  define e where "e = exp (- r * dt)"
  define mem1 where "mem1 = generate_paths_kernel ((n + 256 - 1) sdiv 256) 256 T n payoff dt S0 r sigma
                     (cudaMemcpy d_samples h_samples (T * n)) d_paths"
  define fs where "fs = prepare_svd_kernel (T - 1) 256 n 4 payoff mem1 scan_input0 smem_svds0
                   (cudaMemset flags 0 T, d_svds)"
  define J where "J = (\<lambda>(t :: int) (st :: dmem \<times> dmem).
      \<forall>p. 0 \<le> p \<and> p < n \<longrightarrow> 0 \<le> fst st (d_cashflows + p))"
  have e: "0 \<le> e" by (simp add: e_def)
  have G: "1 \<le> update_cashflow_grid_of n" by (rule update_cashflow_grid_of_pos [OF n])
  have J0: "J (T - 2) (mem1, temp)"
    unfolding J_def mem1_def c using generated_terminal_payoff [OF n] T
    by (simp add: payoff_value_nonneg)
  have step: "\<exists>st'. lsm_timestep n payoff e (update_cashflow_grid_of n) (snd fs) (fst fs)
                      d_cashflows t st = Inr st' \<and> J (t - 1) st'"
    if t: "0 \<le> t" "t \<le> T - 2" and Jt: "J t st" for t st
  proof -
    obtain mem tmp where st: "st = (mem, tmp)" by (cases st)
    have "(t + 1) * n \<le> (T - 1) * n" using t(2) n by (intro mult_right_mono) simp_all
    then have dj: "t * n + n \<le> d_cashflows" unfolding c by (simp add: algebra_simps)
    have nn: "\<And>p. 0 \<le> p \<Longrightarrow> p < n \<Longrightarrow> 0 \<le> mem (d_cashflows + p)"
      using Jt by (simp add: J_def st)
    from lsm_timestep_nonneg [where mem = mem and d_cashflows = d_cashflows and n = n and t = t
        and payoff = payoff and d_svds = "snd fs" and flags = "fst fs" and temp = tmp, OF G e dj nn]
    show ?thesis unfolding st J_def by auto
  qed
  have "- 1 \<le> T - 2" "T - 2 \<le> T - 2" using T by simp_all
  from backward_induction_rule [where J = J, OF this J0 step]
  obtain mem2 temp2 where b:
    "backward_induction n payoff e (update_cashflow_grid_of n) (snd fs) (fst fs) d_cashflows
        (T - 2) (mem1, temp) = Inr (mem2, temp2)"
    "J (- 1) (mem2, temp2)"
    by (metis surj_pair)
  have "0 \<le> (\<Sum>p = 0..<n. mem2 (d_cashflows + p))"
    using b(2) by (intro sum_nonneg) (simp add: J_def)
  then have "0 \<le> e * (\<Sum>p = 0..<n. mem2 (d_cashflows + p)) / real_of_int n"
    using e n by simp
  then show ?thesis
    unfolding do_run_eq [OF n T] Let_def mem1_def [symmetric] fs_def [symmetric] e_def [symmetric]
    by (simp add: b(1))
qed

subsection \<open>Guarded reciprocals\<close>

lemma inv_S_checked_eq: "inv_S_checked A = Some (inv_S A)"
  by (auto simp add: inv_S_checked_def inv_S_def reciprocal_def)

lemma inv_R_checked_eq: "inv_R_checked R = Some (inv_R R)"
  by (simp add: inv_R_checked_def inv_R_def reciprocal_def)

lemma store_W_checked_eq: "store_W_checked R J smem_svds = Some (store_W R J smem_svds)"
proof -
  obtain R00 R01 R02 R11 R12 R22 where R: "R = (R00, R01, R02, R11, R12, R22)"
    by (cases R) auto
  show ?thesis
  proof (cases J)
    case (Jacobi A00 A01 A02 A11 A12 A22 V00 V01 V02 V10 V11 V12 V20 V21 V22)
    show ?thesis
      unfolding R Jacobi store_W_checked_def store_W_def
      by (simp add: inv_S_checked_eq Let_def)
  qed
qed

subsection \<open>The regression on identical paths\<close>



lemma sqrt2_sq: "sqrt 2 * sqrt 2 = 2" by simp

lemma sqrt3_sq: "sqrt 3 * sqrt 3 = 3" by simp










subsection \<open>Regression coefficients\<close>






subsection \<open>A run that exercises every path\<close>














section \<open>Claims\<close>

text \<open>
  C1. For every path \<open>p\<close> and every timestep \<open>t\<close> with \<open>0 \<le> t \<le> T-2\<close>, the Path Generator
  writes at entry \<open>(t,p)\<close> of the path matrix the price \<open>S\<^sub>t\<^sub>+\<^sub>1\<close> of the recurrence
  \<open>gbm_price\<close> over the samples \<open>Z\<^sub>0\<^sub>,\<^sub>p .. Z\<^sub>t\<^sub>,\<^sub>p\<close>; at the final row \<open>t = T-1\<close> it writes the
  payoff of the terminal price \<open>S\<^sub>T\<close> instead of the price. The launch covers every path
  (\<open>num_paths \<le> gridDim * NUM_THREADS_PER_BLOCK\<close>, as in \<open>do_run\<close>) and there is at least
  one timestep.
\<close>

theorem generate_paths_kernel_writes_prices_and_payoff:
  assumes "1 \<le> num_timesteps" and "0 \<le> p" and "p < num_paths"
    and "num_paths \<le> gridDim * NUM_THREADS_PER_BLOCK"
  shows "(\<forall>t. 0 \<le> t \<and> t \<le> num_timesteps - 2 \<longrightarrow>
            generate_paths_kernel gridDim NUM_THREADS_PER_BLOCK num_timesteps num_paths payoff dt
                S0 r sigma samples paths (t * num_paths + p)
              = gbm_price S0 r sigma dt samples num_paths p (nat (t + 1)))
       \<and> generate_paths_kernel gridDim NUM_THREADS_PER_BLOCK num_timesteps num_paths payoff dt
                S0 r sigma samples paths ((num_timesteps - 1) * num_paths + p)
              = payoff_value payoff (gbm_price S0 r sigma dt samples num_paths p (nat num_timesteps))"
proof -
  have n: "0 \<le> gridDim * NUM_THREADS_PER_BLOCK" using assms by linarith
  have "paths_generated num_timesteps num_paths payoff dt S0 r sigma samples paths
          (gridDim * NUM_THREADS_PER_BLOCK)
          (generate_paths_kernel gridDim NUM_THREADS_PER_BLOCK num_timesteps num_paths payoff dt
                S0 r sigma samples paths)"
    unfolding generate_paths_kernel_def
    by (rule generate_paths_kernel_spec [OF assms(1) n])
  then show ?thesis
    unfolding paths_generated_def using assms by (smt (verit, best))
qed

theorem generate_paths_kernel_writes_prices_and_payoff_witness:
  "(1::int) \<le> 2 \<and> (0::int) \<le> 0 \<and> (0::int) < 1 \<and> (1::int) \<le> 1 * 256
   \<and> generate_paths_kernel 1 256 2 1 (PayoffPut 4) 1 3 0 0 (\<lambda>_. 0) (\<lambda>_. 0) 0 = 3
   \<and> generate_paths_kernel 1 256 2 1 (PayoffPut 4) 1 3 0 0 (\<lambda>_. 0) (\<lambda>_. 0) 1 = 1"
proof -
  have h: "(1::int) \<le> 2" "(0::int) \<le> 0" "(0::int) < 1" "(1::int) \<le> 1 * 256" by simp_all
  note C = generate_paths_kernel_writes_prices_and_payoff
    [OF h, of "PayoffPut 4" 1 3 0 0 "\<lambda>_. 0" "\<lambda>_. 0"]
  from C have "generate_paths_kernel 1 256 2 1 (PayoffPut 4) 1 3 0 0 (\<lambda>_. 0) (\<lambda>_. 0) (0 * 1 + 0)
      = gbm_price 3 0 0 1 (\<lambda>_. 0) 1 0 (nat (0 + 1))"
    by (elim conjE allE [of _ 0]) simp
  moreover from C have "generate_paths_kernel 1 256 2 1 (PayoffPut 4) 1 3 0 0 (\<lambda>_. 0) (\<lambda>_. 0) ((2 - 1) * 1 + 0)
      = payoff_value (PayoffPut 4) (gbm_price 3 0 0 1 (\<lambda>_. 0) 1 0 (nat 2))"
    by blast
  ultimately show ?thesis by (simp add: numeral_2_eq_2)
qed

text \<open>
  C3. At a timestep that is not flagged, the Cashflow Updater sets the cashflow of every path
  to the immediate exercise payoff exactly when that payoff exceeds \<open>1e-8\<close> and exceeds the
  discounted continuation estimate \<open>exp (-r dt) (\<beta>\<^sub>0 + \<beta>\<^sub>1 S + \<beta>\<^sub>2 S\<^sup>2)\<close>; in every other case
  the new cashflow is the discounted carry-forward \<open>exp (-r dt) \<cdot> cashflow\<close>. The row of
  prices lies before the row of cashflows in \<open>d_paths\<close>, as in \<open>do_run\<close>.
\<close>

theorem update_cashflow_kernel_exercise_rule:
  assumes "0 < gridDim * NUM_THREADS_PER_BLOCK"
    and "0 \<le> path" and "path < num_paths"
    and "paths + num_paths \<le> cashflows"
    and "d_all_out_of_the_money all_out_of_the_money = 0"
  shows "update_cashflow_kernel gridDim NUM_THREADS_PER_BLOCK num_paths payoff_object
           (exp (- r * dt)) beta paths d_all_out_of_the_money all_out_of_the_money cashflows
           d_paths (cashflows + path)
       = (let S = d_paths (paths + path);
              payoff = payoff_value payoff_object S
          in if payoff > 1 / 10 ^ 8
                \<and> payoff > exp (- r * dt) * (beta 0 + beta 1 * S + beta 2 * S\<^sup>2)
             then payoff
             else exp (- r * dt) * d_paths (cashflows + path))"
proof -
  have dj: "paths + num_paths \<le> cashflows \<or> cashflows + num_paths \<le> paths"
    using assms(4) by simp
  show ?thesis
    unfolding update_cashflow_kernel_spec [OF assms(1) dj]
    using assms(2,3,5)
    by (auto simp add: updated_cashflow_def Let_def power2_eq_square mult.commute)
qed

theorem update_cashflow_kernel_exercise_rule_witness:
  "(0::int) < 1 * 128 \<and> (0::int) \<le> 0 \<and> (0::int) < 1 \<and> (0::int) + 1 \<le> 1
   \<and> (\<lambda>_::int. 0::int) 0 = 0
   \<and> update_cashflow_kernel 1 128 1 (PayoffPut 4) (exp (- 0 * 1)) (\<lambda>_. 0) 0 (\<lambda>_. 0) 0 1
        (\<lambda>i. if i = 0 then 3 else 5) (1 + 0) = 1"
  using update_cashflow_kernel_exercise_rule
    [where gridDim = 1 and NUM_THREADS_PER_BLOCK = 128 and path = 0 and num_paths = 1
       and paths = 0 and cashflows = 1 and d_all_out_of_the_money = "\<lambda>_. 0"
       and all_out_of_the_money = 0 and payoff_object = "PayoffPut 4" and r = 0 and dt = 1
       and beta = "\<lambda>_. 0" and d_paths = "\<lambda>i. if i = 0 then 3 else 5"]
  by (simp add: Let_def)


text \<open>
  C8. For every diagonal \<open>(A00, A11, A22)\<close> that the Jacobi iteration leaves, the three
  conditional swaps in the order 0 vs 1, 0 vs 2, 1 vs 2 leave the diagonal in descending
  order, and they permute the eigenvalues together with their columns of \<open>V\<close>.
\<close>

theorem sort_eigenpairs_descending:
  "sorted_wrt (\<lambda>a b. a \<ge> b) (map fst (eigenpairs (sort_eigenpairs J)))
   \<and> mset (eigenpairs (sort_eigenpairs J)) = mset (eigenpairs J)"
proof (cases J)
  case (Jacobi A00 A01 A02 A11 A12 A22 V00 V01 V02 V10 V11 V12 V20 V21 V22)
  show ?thesis
    unfolding Jacobi sort_eigenpairs_def eigenpairs_def
    by (simp add: Let_def)
qed


text \<open>
  C4. The Price Reducer returns \<open>exp (-r dt)\<close> times the sum of the cashflow vector over all
  \<open>num_paths\<close> paths, divided by \<open>num_paths\<close>: the partial sums per block followed by the
  single finalize pass compute exactly this value, whatever the cashflows are. The grid
  covers every path, as in \<open>do_run\<close>.
\<close>

theorem price_reducer_discounted_mean:
  assumes "0 < NUM_THREADS_PER_BLOCK" and "0 \<le> gridDim"
    and "num_paths \<le> gridDim * NUM_THREADS_PER_BLOCK"
  shows "compute_final_sum_kernel NUM_THREADS_PER_BLOCK num_paths gridDim (exp (- r * dt))
           (compute_partial_sums_kernel gridDim NUM_THREADS_PER_BLOCK num_paths d_paths cashflows
              sums') 0
       = exp (- r * dt) * (\<Sum>path = 0..<num_paths. d_paths (cashflows + path))
           / real_of_int num_paths"
proof -
  let ?B = NUM_THREADS_PER_BLOCK
  let ?f = "\<lambda>g. if g < num_paths then d_paths (cashflows + g) else 0"
  have "(\<Sum>b = 0..<gridDim. compute_partial_sums_kernel gridDim ?B num_paths d_paths cashflows sums' b)
      = (\<Sum>b = 0..<gridDim. \<Sum>tid = 0..<?B. ?f (b * ?B + tid))"
    by (intro sum.cong) (simp_all add: compute_partial_sums_kernel_spec)
  also have "\<dots> = (\<Sum>g = 0..<gridDim * ?B. ?f g)"
    using assms by (intro sum_blocks_threads) simp_all
  also have "\<dots> = (\<Sum>g = 0..<num_paths. ?f g)"
    using assms(3) by (intro sum_zero_tail) simp_all
  also have "\<dots> = (\<Sum>path = 0..<num_paths. d_paths (cashflows + path))"
    by (intro sum.cong) simp_all
  finally show ?thesis
    using assms(1) by (simp add: compute_final_sum_kernel_spec)
qed

theorem price_reducer_discounted_mean_witness:
  "(0::int) < 128 \<and> (0::int) \<le> 1 \<and> (2::int) \<le> 1 * 128
   \<and> compute_final_sum_kernel 128 2 1 (exp (- 0 * 1))
        (compute_partial_sums_kernel 1 128 2 (\<lambda>i. if i = 5 then 3 else 1) 5 (\<lambda>_. 0)) 0 = 2"
proof -
  have h: "(0::int) < 128" "(0::int) \<le> 1" "(2::int) \<le> 1 * 128" by simp_all
  have s: "{0..<2::int} = {0, 1}" by auto
  show ?thesis
    using price_reducer_discounted_mean [OF h, of 0 1 "\<lambda>i. if i = 5 then 3 else 1" 5 "\<lambda>_. 0"]
    by (simp add: s)
qed

text \<open>
  C2. At a timestep where fewer than 4 paths are in the money, \<open>prepare_svd_kernel\<close> sets
  the flag of the timestep, the finalized regression coefficients \<open>beta[0..2]\<close> of that
  timestep are \<open>(0, 0, 0)\<close>, and the Cashflow Updater replaces the cashflow of every path by
  \<open>exp (-r dt)\<close> times its previous value. The kernels are launched as in \<open>do_run\<close>.
\<close>

theorem flagged_timestep_carries_forward:
  assumes "0 \<le> timestep" and "timestep < num_timesteps - 1"
    and "card {p \<in> {0..<num_paths}.
                 is_in_the_money payoff (d_paths (timestep * num_paths + p)) \<noteq> 0} < 4"
    and "1 \<le> update_cashflow_grid"
    and "timestep * num_paths + num_paths \<le> d_cashflows"
  shows "fst (prepare_svd_kernel (num_timesteps - 1) 256 num_paths 4 payoff d_paths scan_input0
                smem_svds0 (cudaMemset flags0 0 num_timesteps, d_svds0)) timestep = 1
       \<and> (\<exists>mem' beta.
             lsm_timestep num_paths payoff (exp (- r * dt)) update_cashflow_grid
                 (snd (prepare_svd_kernel (num_timesteps - 1) 256 num_paths 4 payoff d_paths
                         scan_input0 smem_svds0 (cudaMemset flags0 0 num_timesteps, d_svds0)))
                 (fst (prepare_svd_kernel (num_timesteps - 1) 256 num_paths 4 payoff d_paths
                         scan_input0 smem_svds0 (cudaMemset flags0 0 num_timesteps, d_svds0)))
                 d_cashflows timestep (mem, d_temp_storage)
               = Inr (mem', beta)
           \<and> beta 0 = 0 \<and> beta 1 = 0 \<and> beta 2 = 0
           \<and> (\<forall>path. 0 \<le> path \<and> path < num_paths \<longrightarrow>
                 mem' (d_cashflows + path) = exp (- r * dt) * mem (d_cashflows + path)))"
proof -
  let ?flags = "fst (prepare_svd_kernel (num_timesteps - 1) 256 num_paths 4 payoff d_paths
                         scan_input0 smem_svds0 (cudaMemset flags0 0 num_timesteps, d_svds0))"
  let ?svds = "snd (prepare_svd_kernel (num_timesteps - 1) 256 num_paths 4 payoff d_paths
                         scan_input0 smem_svds0 (cudaMemset flags0 0 num_timesteps, d_svds0))"
  have "itm_count payoff d_paths (timestep * num_paths) num_paths < 4"
    using assms(3) by (simp add: itm_count_card)
  then have flag: "?flags timestep = 1"
    using assms(1,2) by (simp add: prepare_svd_kernel_flags)
  then have nz: "?flags timestep \<noteq> 0" by simp
  have dj: "timestep * num_paths + num_paths \<le> d_cashflows
        \<or> d_cashflows + num_paths \<le> timestep * num_paths"
    using assms(5) by simp
  from lsm_timestep_flagged [where flags = ?flags and t = timestep and n = num_paths
      and d_cashflows = d_cashflows and update_cashflow_grid = update_cashflow_grid
      and payoff = payoff and e = "exp (- r * dt)" and d_svds = ?svds and mem = mem
      and temp = d_temp_storage, OF assms(4) nz dj]
  obtain mem' beta where
    "lsm_timestep num_paths payoff (exp (- r * dt)) update_cashflow_grid ?svds ?flags d_cashflows
        timestep (mem, d_temp_storage) = Inr (mem', beta)"
    "beta 0 = 0" "beta 1 = 0" "beta 2 = 0"
    "mem' = (\<lambda>q. if 0 \<le> q - d_cashflows \<and> q - d_cashflows < num_paths
                  then exp (- r * dt) * mem q else mem q)"
    by blast
  then show ?thesis using flag by auto
qed

theorem flagged_timestep_carries_forward_witness:
  "(0::int) \<le> 0 \<and> (0::int) < 2 - 1
   \<and> card {p \<in> {0..<1::int}. is_in_the_money (PayoffPut 4) ((\<lambda>_. 5) (0 * 1 + p)) \<noteq> 0} < 4
   \<and> (1::int) \<le> 1 \<and> (0::int) * 1 + 1 \<le> 1
   \<and> fst (prepare_svd_kernel (2 - 1) 256 1 4 (PayoffPut 4) (\<lambda>_. 5) (\<lambda>_. 0) (\<lambda>_. 0)
             (cudaMemset (\<lambda>_. 0) 0 2, \<lambda>_. 0)) 0 = 1
   \<and> (\<exists>mem' beta.
         lsm_timestep 1 (PayoffPut 4) (exp (- 0 * 1)) 1
             (snd (prepare_svd_kernel (2 - 1) 256 1 4 (PayoffPut 4) (\<lambda>_. 5) (\<lambda>_. 0) (\<lambda>_. 0)
                     (cudaMemset (\<lambda>_. 0) 0 2, \<lambda>_. 0)))
             (fst (prepare_svd_kernel (2 - 1) 256 1 4 (PayoffPut 4) (\<lambda>_. 5) (\<lambda>_. 0) (\<lambda>_. 0)
                     (cudaMemset (\<lambda>_. 0) 0 2, \<lambda>_. 0)))
             1 0 (\<lambda>_. 5, \<lambda>_. 0)
           = Inr (mem', beta)
       \<and> beta 0 = 0 \<and> beta 1 = 0 \<and> beta 2 = 0
       \<and> (\<forall>path. 0 \<le> path \<and> path < 1 \<longrightarrow> mem' (1 + path) = exp (- 0 * 1) * (\<lambda>_. 5) (1 + path)))"
proof -
  have h: "(0::int) \<le> 0" "(0::int) < 2 - 1"
    "card {p \<in> {0..<1::int}. is_in_the_money (PayoffPut 4) ((\<lambda>_. 5) (0 * 1 + p)) \<noteq> 0} < 4"
    "(1::int) \<le> 1" "(0::int) * 1 + 1 \<le> 1"
    by simp_all
  note C = flagged_timestep_carries_forward [where timestep = 0 and num_timesteps = 2
      and num_paths = 1 and payoff = "PayoffPut 4" and d_paths = "\<lambda>_. 5"
      and update_cashflow_grid = 1 and d_cashflows = 1 and ?scan_input0.0 = "\<lambda>_. 0"
      and ?smem_svds0.0 = "\<lambda>_. 0" and ?flags0.0 = "\<lambda>_. 0" and ?d_svds0.0 = "\<lambda>_. 0" and r = 0 and dt = 1
      and mem = "\<lambda>_. 5" and d_temp_storage = "\<lambda>_. 0", OF h]
  show ?thesis using h C by blast
qed

text \<open>
  C5. At a timestep whose flag is not set by \<open>prepare_svd_kernel\<close>, the three seed values
  in \<open>smem_svds[0..2]\<close>, which \<open>svd_3x3\<close> reads as \<open>x0, x1, x2\<close>, are the prices of the first
  three paths in the money of the timestep, three different paths in increasing path order.
\<close>

theorem prepare_svd_seeds_are_first_three_itm_paths:
  assumes "0 < NUM_THREADS_PER_BLOCK"
    and "0 \<le> timestep" and "timestep < gridDim" and "timestep < num_timesteps"
    and "fst (prepare_svd_kernel gridDim NUM_THREADS_PER_BLOCK num_paths 4 payoff paths
                scan_input0 smem_svds0 (cudaMemset flags0 0 num_timesteps, svds)) timestep = 0"
  shows "(let seeds = blk_smem_svds (prepare_svd_scan NUM_THREADS_PER_BLOCK num_paths payoff paths
                          scan_input0 smem_svds0 timestep);
              in_the_money_paths =
                 filter (\<lambda>p. is_in_the_money payoff (paths (timestep * num_paths + p)) \<noteq> 0)
                   [0..num_paths - 1]
          in 3 \<le> length in_the_money_paths
           \<and> in_the_money_paths ! 0 < in_the_money_paths ! 1
           \<and> in_the_money_paths ! 1 < in_the_money_paths ! 2
           \<and> seeds 0 = paths (timestep * num_paths + in_the_money_paths ! 0)
           \<and> seeds 1 = paths (timestep * num_paths + in_the_money_paths ! 1)
           \<and> seeds 2 = paths (timestep * num_paths + in_the_money_paths ! 2))"
proof -
  let ?cnt = "itm_count payoff paths (timestep * num_paths) num_paths"
  let ?ps = "itm_paths payoff paths (timestep * num_paths) num_paths"
  have "\<not> ?cnt < 4"
    using assms(5) unfolding prepare_svd_kernel_flags [OF assms(1)]
    using assms(2,3) by (auto split: if_splits)
  then have c4: "4 \<le> ?cnt" by simp
  then have n: "0 \<le> num_paths"
    using itm_count_upper [of payoff paths "timestep * num_paths" num_paths] by simp
  have len: "int (length ?ps) = ?cnt"
    using itm_paths_nth [OF n, of payoff paths "timestep * num_paths"] by blast
  then have l4: "4 \<le> length ?ps" using c4 by simp
  have s: "blk_smem_svds (prepare_svd_scan NUM_THREADS_PER_BLOCK num_paths payoff paths
             scan_input0 smem_svds0 timestep) (int k) = paths (timestep * num_paths + ?ps ! k)"
    if "k < 3" for k
    using that l4 by (intro prepare_svd_scan_seed [OF assms(1) n]) simp_all
  have "?ps ! 0 < ?ps ! 1" "?ps ! 1 < ?ps ! 2"
    using l4 by (auto intro!: itm_paths_increasing [OF n])
  then show ?thesis
    using s [of 0] s [of 1] s [of 2] l4
    unfolding Let_def itm_paths_def [symmetric] by simp
qed

theorem prepare_svd_seeds_are_first_three_itm_paths_witness:
  "(0::int) < 256 \<and> (0::int) \<le> 0 \<and> (0::int) < 1 \<and> (0::int) < 2
   \<and> fst (prepare_svd_kernel 1 256 4 4 (PayoffPut 4) (\<lambda>p. real_of_int p) (\<lambda>_. 0) (\<lambda>_. 0)
             (cudaMemset (\<lambda>_. 0) 0 2, \<lambda>_. 0)) 0 = 0
   \<and> (let seeds = blk_smem_svds (prepare_svd_scan 256 4 (PayoffPut 4) (\<lambda>p. real_of_int p)
                          (\<lambda>_. 0) (\<lambda>_. 0) 0);
           in_the_money_paths =
              filter (\<lambda>p. is_in_the_money (PayoffPut 4) ((\<lambda>p. real_of_int p) (0 * 4 + p)) \<noteq> 0)
                [0..4 - 1]
       in 3 \<le> length in_the_money_paths
        \<and> in_the_money_paths ! 0 < in_the_money_paths ! 1
        \<and> in_the_money_paths ! 1 < in_the_money_paths ! 2
        \<and> seeds 0 = (\<lambda>p. real_of_int p) (0 * 4 + in_the_money_paths ! 0)
        \<and> seeds 1 = (\<lambda>p. real_of_int p) (0 * 4 + in_the_money_paths ! 1)
        \<and> seeds 2 = (\<lambda>p. real_of_int p) (0 * 4 + in_the_money_paths ! 2))"
proof -
  have c: "itm_count (PayoffPut 4) (\<lambda>p. real_of_int p) (0 * 4) 4 = 4"
  proof -
    have "itm_count (PayoffPut 4) (\<lambda>p. real_of_int p) (0 * 4) 4 = (\<Sum>p = 0..<4::int. 1)"
      unfolding itm_count_def by (intro sum.cong refl) (simp add: itm_at_def)
    then show ?thesis by simp
  qed
  have h: "(0::int) < 256" "(0::int) \<le> 0" "(0::int) < 1" "(0::int) < 2"
    "fst (prepare_svd_kernel 1 256 4 4 (PayoffPut 4) (\<lambda>p. real_of_int p) (\<lambda>_. 0) (\<lambda>_. 0)
             (cudaMemset (\<lambda>_. 0) 0 2, \<lambda>_. 0)) 0 = 0"
    using c by (simp_all add: prepare_svd_kernel_flags cudaMemset_def)
  note C = prepare_svd_seeds_are_first_three_itm_paths [OF h]
  show ?thesis using h C by blast
qed

text \<open>
  C6. With \<open>num_paths\<close> below 4 (and at least one path, at least two timesteps, so that
  every launch is accepted) every timestep \<open>0 .. num_timesteps-2\<close> is flagged, hence takes
  the carry-forward branch, and the price is \<open>exp (-r dt num_timesteps)\<close> times the mean
  over the paths of the payoff at the terminal price.
\<close>

theorem few_paths_price_is_discounted_terminal_average:
  assumes "1 \<le> num_paths" and "num_paths < 4" and "2 \<le> num_timesteps"
    and "d_cashflows = (num_timesteps - 1) * num_paths"
  shows "(\<forall>timestep. 0 \<le> timestep \<and> timestep \<le> num_timesteps - 2 \<longrightarrow>
            fst (prepare_svd_kernel (num_timesteps - 1) 256 num_paths 4 payoff
                   (generate_paths_kernel ((num_paths + 256 - 1) sdiv 256) 256 num_timesteps
                      num_paths payoff dt S0 r sigma
                      (cudaMemcpy d_samples h_samples (num_timesteps * num_paths)) d_paths)
                   scan_input0 smem_svds0
                   (cudaMemset d_all_out_of_the_money 0 num_timesteps, d_svds)) timestep = 1)
       \<and> do_run h_samples num_timesteps num_paths payoff dt S0 r sigma d_samples d_paths
            d_cashflows d_svds d_all_out_of_the_money d_temp_storage scan_input0 smem_svds0
          = Inr (exp (- r * dt * real_of_int num_timesteps)
                 * (\<Sum>path = 0..<num_paths.
                      payoff_value payoff
                        (gbm_price S0 r sigma dt h_samples num_paths path (nat num_timesteps)))
                 / real_of_int num_paths)"
proof (intro conjI allI impI)
  fix timestep assume "0 \<le> timestep \<and> timestep \<le> num_timesteps - 2"
  then show "fst (prepare_svd_kernel (num_timesteps - 1) 256 num_paths 4 payoff
                   (generate_paths_kernel ((num_paths + 256 - 1) sdiv 256) 256 num_timesteps
                      num_paths payoff dt S0 r sigma
                      (cudaMemcpy d_samples h_samples (num_timesteps * num_paths)) d_paths)
                   scan_input0 smem_svds0
                   (cudaMemset d_all_out_of_the_money 0 num_timesteps, d_svds)) timestep = 1"
    using assms(2) by (intro few_paths_flags) simp_all
next
  show "do_run h_samples num_timesteps num_paths payoff dt S0 r sigma d_samples d_paths
            d_cashflows d_svds d_all_out_of_the_money d_temp_storage scan_input0 smem_svds0
          = Inr (exp (- r * dt * real_of_int num_timesteps)
                 * (\<Sum>path = 0..<num_paths.
                      payoff_value payoff
                        (gbm_price S0 r sigma dt h_samples num_paths path (nat num_timesteps)))
                 / real_of_int num_paths)"
    by (rule do_run_few_paths [OF assms])
qed

theorem few_paths_price_is_discounted_terminal_average_witness:
  "(1::int) \<le> 1 \<and> (1::int) < 4 \<and> (2::int) \<le> 2 \<and> (1::int) = (2 - 1) * 1
   \<and> fst (prepare_svd_kernel (2 - 1) 256 1 4 (PayoffPut 4)
             (generate_paths_kernel ((1 + 256 - 1) sdiv 256) 256 2 1 (PayoffPut 4) 1 3 0 0
                (cudaMemcpy (\<lambda>_. 0) (\<lambda>_. 0) (2 * 1)) (\<lambda>_. 0))
             (\<lambda>_. 0) (\<lambda>_. 0) (cudaMemset (\<lambda>_. 0) 0 2, \<lambda>_. 0)) 0 = 1
   \<and> do_run (\<lambda>_. 0) 2 1 (PayoffPut 4) 1 3 0 0 (\<lambda>_. 0) (\<lambda>_. 0) 1 (\<lambda>_. 0) (\<lambda>_. 0) (\<lambda>_. 0)
        (\<lambda>_. 0) (\<lambda>_. 0) = Inr 1"
proof -
  have h: "(1::int) \<le> 1" "(1::int) < 4" "(2::int) \<le> 2" "(1::int) = (2 - 1) * 1" by simp_all
  note C = few_paths_price_is_discounted_terminal_average [OF h, of "PayoffPut 4" 1 3 0 0
      "\<lambda>_. 0" "\<lambda>_. 0" "\<lambda>_. 0" "\<lambda>_. 0" "\<lambda>_. 0" "\<lambda>_. 0" "\<lambda>_. 0" "\<lambda>_. 0"]
  have s: "{0..<1::int} = {0}" by auto
  from C have "fst (prepare_svd_kernel (2 - 1) 256 1 4 (PayoffPut 4)
             (generate_paths_kernel ((1 + 256 - 1) sdiv 256) 256 2 1 (PayoffPut 4) 1 3 0 0
                (cudaMemcpy (\<lambda>_. 0) (\<lambda>_. 0) (2 * 1)) (\<lambda>_. 0))
             (\<lambda>_. 0) (\<lambda>_. 0) (cudaMemset (\<lambda>_. 0) 0 2, \<lambda>_. 0)) 0 = 1"
    by (elim conjE allE [of _ 0]) simp
  moreover from C have "do_run (\<lambda>_. 0) 2 1 (PayoffPut 4) 1 3 0 0 (\<lambda>_. 0) (\<lambda>_. 0) 1 (\<lambda>_. 0) (\<lambda>_. 0) (\<lambda>_. 0)
        (\<lambda>_. 0) (\<lambda>_. 0) = Inr 1"
    by (simp add: s numeral_2_eq_2)
  ultimately show ?thesis by simp
qed

text \<open>
  C10. Cashflows are never negative: both payoffs are a maximum with 0, the Path Generator
  seeds the cashflow row with payoffs, every pass through the body of the main loop keeps
  a non-negative cashflow row non-negative (each new value is a payoff or the non-negative
  discount factor \<open>exp (-r dt)\<close> times the previous one), and so the price that \<open>do_run\<close>
  returns is non-negative. There is at least one path and there are at least two
  timesteps, so that every launch is accepted.
\<close>

theorem cashflows_and_price_nonnegative:
  assumes "1 \<le> num_paths" and "2 \<le> num_timesteps"
    and "d_cashflows = (num_timesteps - 1) * num_paths"
  shows "0 \<le> payoff_value (PayoffPut K) S \<and> 0 \<le> payoff_value (PayoffCall K) S
       \<and> (\<forall>path. 0 \<le> path \<and> path < num_paths \<longrightarrow>
             0 \<le> generate_paths_kernel ((num_paths + 256 - 1) sdiv 256) 256 num_timesteps
                    num_paths payoff dt S0 r sigma
                    (cudaMemcpy d_samples h_samples (num_timesteps * num_paths)) d_paths
                    (d_cashflows + path))
       \<and> (0 \<le> timestep \<and> timestep \<le> num_timesteps - 2 \<and> 1 \<le> update_cashflow_grid
            \<and> (\<forall>path. 0 \<le> path \<and> path < num_paths \<longrightarrow> 0 \<le> mem (d_cashflows + path))
          \<longrightarrow> (\<exists>mem' beta.
                 lsm_timestep num_paths payoff (exp (- r * dt)) update_cashflow_grid svds flags
                   d_cashflows timestep (mem, temp) = Inr (mem', beta)
               \<and> (\<forall>path. 0 \<le> path \<and> path < num_paths \<longrightarrow> 0 \<le> mem' (d_cashflows + path))))
       \<and> (\<exists>price. do_run h_samples num_timesteps num_paths payoff dt S0 r sigma d_samples d_paths
                       d_cashflows d_svds d_all_out_of_the_money d_temp_storage scan_input0
                       smem_svds0 = Inr price
                  \<and> 0 \<le> price)"
proof (intro conjI allI impI)
  show "0 \<le> payoff_value (PayoffPut K) S" "0 \<le> payoff_value (PayoffCall K) S"
    by (rule payoff_value_nonneg)+
next
  fix path assume "0 \<le> path \<and> path < num_paths"
  then show "0 \<le> generate_paths_kernel ((num_paths + 256 - 1) sdiv 256) 256 num_timesteps
                    num_paths payoff dt S0 r sigma
                    (cudaMemcpy d_samples h_samples (num_timesteps * num_paths)) d_paths
                    (d_cashflows + path)"
    unfolding assms(3) using generated_terminal_payoff [OF assms(1), of num_timesteps path] assms(2)
    by (simp add: payoff_value_nonneg)
next
  assume a: "0 \<le> timestep \<and> timestep \<le> num_timesteps - 2 \<and> 1 \<le> update_cashflow_grid
            \<and> (\<forall>path. 0 \<le> path \<and> path < num_paths \<longrightarrow> 0 \<le> mem (d_cashflows + path))"
  then have "(timestep + 1) * num_paths \<le> (num_timesteps - 1) * num_paths"
    using assms(1) by (intro mult_right_mono) simp_all
  then have dj: "timestep * num_paths + num_paths \<le> d_cashflows"
    unfolding assms(3) by (simp add: algebra_simps)
  show "\<exists>mem' beta.
                 lsm_timestep num_paths payoff (exp (- r * dt)) update_cashflow_grid svds flags
                   d_cashflows timestep (mem, temp) = Inr (mem', beta)
               \<and> (\<forall>path. 0 \<le> path \<and> path < num_paths \<longrightarrow> 0 \<le> mem' (d_cashflows + path))"
  proof (rule lsm_timestep_nonneg [where mem = mem and d_cashflows = d_cashflows
        and n = num_paths and t = timestep])
    show "1 \<le> update_cashflow_grid" using a by simp
    show "0 \<le> exp (- r * dt)" by simp
    show "timestep * num_paths + num_paths \<le> d_cashflows" by (rule dj)
    show "\<And>p. 0 \<le> p \<Longrightarrow> p < num_paths \<Longrightarrow> 0 \<le> mem (d_cashflows + p)" using a by simp
  qed
next
  show "\<exists>price. do_run h_samples num_timesteps num_paths payoff dt S0 r sigma d_samples d_paths
                       d_cashflows d_svds d_all_out_of_the_money d_temp_storage scan_input0
                       smem_svds0 = Inr price
                  \<and> 0 \<le> price"
    by (rule do_run_nonneg [OF assms])
qed

theorem cashflows_and_price_nonnegative_witness:
  "(1::int) \<le> 1 \<and> (2::int) \<le> 2 \<and> (1::int) = (2 - 1) * 1
   \<and> 0 \<le> payoff_value (PayoffPut 4) 3 \<and> 0 \<le> payoff_value (PayoffCall 4) 3
   \<and> 0 \<le> generate_paths_kernel ((1 + 256 - 1) sdiv 256) 256 2 1 (PayoffPut 4) 1 3 0 0
            (cudaMemcpy (\<lambda>_. 0) (\<lambda>_. 0) (2 * 1)) (\<lambda>_. 0) (1 + 0)
   \<and> (\<exists>mem' beta.
         lsm_timestep 1 (PayoffPut 4) (exp (- 0 * 1)) 1 (\<lambda>_. 0) (\<lambda>_. 0) 1 0 (\<lambda>_. 5, \<lambda>_. 0)
           = Inr (mem', beta)
       \<and> 0 \<le> mem' (1 + 0))
   \<and> (\<exists>price. do_run (\<lambda>_. 0) 2 1 (PayoffPut 4) 1 3 0 0 (\<lambda>_. 0) (\<lambda>_. 0) 1 (\<lambda>_. 0) (\<lambda>_. 0)
                  (\<lambda>_. 0) (\<lambda>_. 0) (\<lambda>_. 0) = Inr price
              \<and> 0 \<le> price)"
proof -
  have h: "(1::int) \<le> 1" "(2::int) \<le> 2" "(1::int) = (2 - 1) * 1" by simp_all
  note C = cashflows_and_price_nonnegative [OF h, where K = 4 and S = 3 and payoff = "PayoffPut 4"
      and dt = 1 and ?S0.0 = 3 and r = 0 and sigma = 0 and d_samples = "\<lambda>_. 0"
      and h_samples = "\<lambda>_. 0" and d_paths = "\<lambda>_. 0" and timestep = 0
      and update_cashflow_grid = 1 and mem = "\<lambda>_. 5" and svds = "\<lambda>_. 0" and flags = "\<lambda>_. 0"
      and temp = "\<lambda>_. 0" and d_svds = "\<lambda>_. 0" and d_all_out_of_the_money = "\<lambda>_. 0"
      and d_temp_storage = "\<lambda>_. 0" and ?scan_input0.0 = "\<lambda>_. 0" and ?smem_svds0.0 = "\<lambda>_. 0"]
  have p: "(0::int) \<le> 0 \<and> (0::int) \<le> 2 - 2 \<and> (1::int) \<le> 1
      \<and> (\<forall>path::int. 0 \<le> path \<and> path < 1 \<longrightarrow> (0::real) \<le> (\<lambda>_. 5) (1 + path))"
    by simp
  from C p have "\<exists>mem' beta.
         lsm_timestep 1 (PayoffPut 4) (exp (- 0 * 1)) 1 (\<lambda>_. 0) (\<lambda>_. 0) 1 0 (\<lambda>_. 5, \<lambda>_. 0)
           = Inr (mem', beta)
       \<and> (\<forall>path. 0 \<le> path \<and> path < 1 \<longrightarrow> 0 \<le> mem' (1 + path))"
    by blast
  then have "\<exists>mem' beta.
         lsm_timestep 1 (PayoffPut 4) (exp (- 0 * 1)) 1 (\<lambda>_. 0) (\<lambda>_. 0) 1 0 (\<lambda>_. 5, \<lambda>_. 0)
           = Inr (mem', beta)
       \<and> 0 \<le> mem' (1 + 0)"
    by (metis order_refl zero_less_one)
  moreover from C have "0 \<le> generate_paths_kernel ((1 + 256 - 1) sdiv 256) 256 2 1 (PayoffPut 4) 1 3 0 0
            (cudaMemcpy (\<lambda>_. 0) (\<lambda>_. 0) (2 * 1)) (\<lambda>_. 0) (1 + 0)"
    by (elim conjE allE [of _ 0]) simp
  ultimately show ?thesis using C by simp
qed

text \<open>
  C9. No reciprocal of an eigenvalue in \<open>svd_3x3\<close> and no reciprocal of a diagonal entry of
  \<open>R\<close> in a thread of \<open>compute_partial_beta_kernel\<close> divides by zero: with these
  reciprocals as partial operations, \<open>svd_3x3\<close> and the thread still have a result, for
  every input, and it is the result of the kernels. The guards give an eigenvalue of
  magnitude below \<open>1e-12\<close> the inverse 0 and a zero diagonal entry of \<open>R\<close> the reciprocal
  0, without a division.
\<close>

theorem guarded_reciprocals_never_divide_by_zero:
  "svd_3x3_checked m sums_xyzw smem_svds = Some (svd_3x3 m sums_xyzw smem_svds)
   \<and> compute_partial_beta_thread_checked NUM_THREADS_PER_GRID num_paths payoff d_svds svd d_paths
        paths cashflows first_path
       = Some (compute_partial_beta_thread NUM_THREADS_PER_GRID num_paths payoff d_svds svd
                 d_paths paths cashflows first_path)
   \<and> (\<bar>A\<bar> < 1 / 10 ^ 12 \<longrightarrow> inv_S_checked A = Some 0 \<and> inv_S A = 0)
   \<and> (R = 0 \<longrightarrow> inv_R_checked R = Some 0 \<and> inv_R R = 0)"
proof (intro conjI impI)
  show "svd_3x3_checked m sums_xyzw smem_svds = Some (svd_3x3 m sums_xyzw smem_svds)"
    unfolding svd_3x3_checked_def svd_3x3_def Let_def by (rule store_W_checked_eq)
  show "compute_partial_beta_thread_checked NUM_THREADS_PER_GRID num_paths payoff d_svds svd d_paths
        paths cashflows first_path
       = Some (compute_partial_beta_thread NUM_THREADS_PER_GRID num_paths payoff d_svds svd
                 d_paths paths cashflows first_path)"
    unfolding compute_partial_beta_thread_checked_def compute_partial_beta_thread_def
    by (simp add: inv_R_checked_eq Let_def)
next
  assume "\<bar>A\<bar> < 1 / 10 ^ 12"
  then show "inv_S_checked A = Some 0" and "inv_S A = 0"
    by (simp_all add: inv_S_checked_def inv_S_def)
next
  assume "R = 0"
  then show "inv_R_checked R = Some 0" and "inv_R R = 0"
    by (simp_all add: inv_R_checked_def inv_R_def)
qed

theorem guarded_reciprocals_never_divide_by_zero_witness:
  "svd_3x3_checked 4 (4, 4, 4, 4) (\<lambda>_. 1) = Some (svd_3x3 4 (4, 4, 4, 4) (\<lambda>_. 1))
   \<and> compute_partial_beta_thread_checked 128 1 (PayoffPut 2) (\<lambda>_. 0) 0 (\<lambda>_. 1) 0 1 0
       = Some (compute_partial_beta_thread 128 1 (PayoffPut 2) (\<lambda>_. 0) 0 (\<lambda>_. 1) 0 1 0)
   \<and> \<bar>0 :: real\<bar> < 1 / 10 ^ 12 \<and> inv_S_checked 0 = Some 0 \<and> inv_S 0 = 0
   \<and> inv_R_checked 0 = Some 0 \<and> inv_R 0 = 0"
  using guarded_reciprocals_never_divide_by_zero [of 4 "(4, 4, 4, 4)" "\<lambda>_. 1" 128 1 "PayoffPut 2"
      "\<lambda>_. 0" 0 "\<lambda>_. 1" 0 1 0 0 0]
  by simp




end
